theory Spec2Isabelle
  imports Main "HOL-Library.AList"
begin

section \<open>JavaScript values used by the sync engine\<close>

text \<open>
  Strings are byte strings (\<open>char list\<close>). A value of type \<open>string | undefined\<close> is a
  \<open>string option\<close>; in a condition JavaScript takes \<open>undefined\<close> and the empty string
  as false.
\<close>

definition truthy :: "string option \<Rightarrow> bool" where
  "truthy s = (case s of None \<Rightarrow> False | Some v \<Rightarrow> v \<noteq> [])"

text \<open>The backslash character, which cannot be written inside a string literal.\<close>

definition BS :: char where
  "BS = CHR 0x5C"

text \<open>White space as \<open>String.prototype.trim\<close> and \<open>parseInt\<close> skip it (the ASCII part).\<close>

definition is_space :: "char \<Rightarrow> bool" where
  "is_space c = (c \<in> set [CHR 0x09, CHR 0x0A, CHR 0x0B, CHR 0x0C, CHR 0x0D, CHR 0x20])"

definition trim :: "string \<Rightarrow> string" where
  "trim s = rev (dropWhile is_space (rev (dropWhile is_space s)))"

subsection \<open>Numbers as property keys\<close>

text \<open>
  A JavaScript number that is used as a collection id is an integer or \<open>NaN\<close>
  (what \<open>parseInt\<close> answers on a string without digits).
\<close>

datatype number = Num int | NaN

definition digit_char :: "nat \<Rightarrow> char" where
  "digit_char d = char_of (48 + d)"

function decimal :: "nat \<Rightarrow> string" where
  "decimal n = (if n < 10 then [digit_char n] else decimal (n div 10) @ [digit_char (n mod 10)])"
  by pat_completeness auto
termination
  by (relation "measure (\<lambda>n. n)") auto

declare decimal.simps [simp del]

text \<open>
  \<open>Number.prototype.toString\<close>, the conversion a number undergoes when it becomes a
  property key. It is the plain decimal numeral for integers of magnitude below
  \<open>10^21\<close>, which covers every safe integer; larger magnitudes are printed with an
  exponent by JavaScript and are outside this model.
\<close>

fun number_to_string :: "number \<Rightarrow> string" where
  "number_to_string NaN = ''NaN''"
| "number_to_string (Num i) =
     (if i < 0 then CHR ''-'' # decimal (nat (- i)) else decimal (nat i))"

definition js_safe_integer :: "number \<Rightarrow> bool" where
  "js_safe_integer k = (case k of NaN \<Rightarrow> False | Num i \<Rightarrow> \<bar>i\<bar> < 2 ^ 53)"

text \<open>The value of a character as a digit of a radix up to 16.\<close>

definition hex_val :: "char \<Rightarrow> int option" where
  "hex_val c =
     (let k = (of_char c :: int) in
      if 48 \<le> k \<and> k \<le> 57 then Some (k - 48)
      else if 97 \<le> k \<and> k \<le> 102 then Some (k - 87)
      else if 65 \<le> k \<and> k \<le> 70 then Some (k - 55)
      else None)"

definition digit_in :: "int \<Rightarrow> char \<Rightarrow> bool" where
  "digit_in radix c = (case hex_val c of None \<Rightarrow> False | Some v \<Rightarrow> v < radix)"

definition digits_value :: "int \<Rightarrow> string \<Rightarrow> int" where
  "digits_value radix ds =
     foldl (\<lambda>a c. a * radix + (case hex_val c of None \<Rightarrow> 0 | Some v \<Rightarrow> v)) 0 ds"

text \<open>
  \<open>parseInt(s)\<close> with no radix: skip white space, read a sign, read a \<open>0x\<close> prefix
  (radix 16, otherwise 10), take the longest run of digits; no digit gives \<open>NaN\<close>.
\<close>

definition parseInt :: "string \<Rightarrow> number" where
  "parseInt s =
     (let s1 = dropWhile is_space s;
          neg = (take 1 s1 = ''-'');
          s2 = (if take 1 s1 = ''-'' \<or> take 1 s1 = ''+'' then drop 1 s1 else s1);
          hex = (take 2 s2 = ''0x'' \<or> take 2 s2 = ''0X'');
          radix = (if hex then 16 else 10);
          s3 = (if hex then drop 2 s2 else s2);
          ds = takeWhile (digit_in radix) s3
      in if ds = [] then NaN
         else Num ((if neg then - 1 else 1) * digits_value radix ds))"

section \<open>URL normalisation\<close>

text \<open>
  Modelled from the spec: the module \<open>./string\<close> that exports \<open>normalizeUrl\<close> is not
  among the sources, only its test suite is. The specification gives the contract:
  trim leading and trailing white space, strip exactly one trailing slash, then escape
  every backslash and, in a second pass, every forward slash with a single backslash.
\<close>

definition stripTrailingSlash :: "string \<Rightarrow> string" where
  "stripTrailingSlash s = (if s \<noteq> [] \<and> last s = CHR ''/'' then butlast s else s)"

definition escapeChar :: "char \<Rightarrow> string \<Rightarrow> string" where
  "escapeChar x s = concat (map (\<lambda>c. if c = x then [BS, c] else [c]) s)"

definition normalizeUrl :: "string \<Rightarrow> string" where
  "normalizeUrl u = escapeChar CHR ''/'' (escapeChar BS (stripTrailingSlash (trim u)))"

section \<open>The data model\<close>

text \<open>
  A JavaScript \<open>Map\<close> is an association list with distinct keys in insertion order:
  \<open>get\<close> is \<open>map_of\<close>, \<open>has\<close> asks whether \<open>map_of\<close> answers, and \<open>set\<close> is
  \<open>AList.update\<close>, which replaces the value of a key in place and appends a new key.
\<close>

record BookmarkState =
  url :: string
  title :: string
  collectionId :: int
  raindropId :: int
  lastModified :: "string option"
  cover :: "string option"

record SyncState =
  bookmarks :: "(string \<times> BookmarkState) list"
  collectionFolders :: "(number \<times> string) list"
  lastSync :: int

text \<open>\<open>new Map(entries)\<close>: the entries are set one after the other.\<close>

definition Map_of_entries :: "('k \<times> 'v) list \<Rightarrow> ('k \<times> 'v) list" where
  "Map_of_entries es = fold (\<lambda>e m. AList.update (fst e) (snd e) m) es []"

subsection \<open>The source: collections and their raindrops\<close>

text \<open>
  Of a raindrop and of a collection of the remote service the engine reads the fields
  below (\<open>rd_id\<close> and \<open>col_id\<close> are the fields \<open>_id\<close>). The collection tree is a
  \<open>TreeNode\<close> whose payload is a collection or \<open>null\<close>.
\<close>

record Raindrop =
  rd_id :: int
  link :: string
  rd_title :: string
  lastUpdate :: "string option"
  rd_cover :: "string option"

record Collection =
  col_id :: int
  col_title :: string

datatype TreeNode = TreeNode (data: "Collection option") (children: "TreeNode list")

subsection \<open>The destination: the browser's bookmark store\<close>

text \<open>
  An in-memory model of \<open>chrome.bookmarks\<close> as far as the engine calls it. A node is a
  bookmark when it has a URL and a folder otherwise; the store hands out the decimal
  numerals of a counter as ids. A call is rejected when the node or the parent folder it
  names does not exist; a rejected call leaves the store as it was.
\<close>

record BookmarkTreeNode =
  node_id :: string
  parentId :: "string option"
  node_title :: string
  node_url :: "string option"

record chrome_bookmarks =
  nodes :: "BookmarkTreeNode list"
  nextId :: nat

datatype error = FolderNotFound string | BookmarkError | FetchError

definition is_folder :: "BookmarkTreeNode \<Rightarrow> bool" where
  "is_folder n = (\<not> truthy (node_url n))"

definition has_node :: "string \<Rightarrow> chrome_bookmarks \<Rightarrow> bool" where
  "has_node i c = list_ex (\<lambda>n. node_id n = i) (nodes c)"

definition has_folder :: "string \<Rightarrow> chrome_bookmarks \<Rightarrow> bool" where
  "has_folder i c = list_ex (\<lambda>n. node_id n = i \<and> is_folder n) (nodes c)"

text \<open>\<open>chrome.bookmarks.create({parentId, title, url})\<close>; without a URL it makes a folder.\<close>

definition bookmarks_create ::
  "string \<Rightarrow> string \<Rightarrow> string option \<Rightarrow> chrome_bookmarks
     \<Rightarrow> error + BookmarkTreeNode \<times> chrome_bookmarks" where
  "bookmarks_create pid t u c =
     (if has_folder pid c then
        (let n = \<lparr>node_id = decimal (nextId c), parentId = Some pid, node_title = t,
                   node_url = (if truthy u then u else None)\<rparr>
         in Inr (n, c\<lparr>nodes := nodes c @ [n], nextId := Suc (nextId c)\<rparr>))
      else Inl BookmarkError)"

text \<open>\<open>chrome.bookmarks.update(id, {title})\<close>.\<close>

definition bookmarks_update :: "string \<Rightarrow> string \<Rightarrow> chrome_bookmarks \<Rightarrow> error + chrome_bookmarks" where
  "bookmarks_update i t c =
     (if has_node i c then
        Inr (c\<lparr>nodes := map (\<lambda>n. if node_id n = i then n\<lparr>node_title := t\<rparr> else n) (nodes c)\<rparr>)
      else Inl BookmarkError)"

text \<open>\<open>chrome.bookmarks.move(id, {parentId})\<close>.\<close>

definition bookmarks_move :: "string \<Rightarrow> string \<Rightarrow> chrome_bookmarks \<Rightarrow> error + chrome_bookmarks" where
  "bookmarks_move i pid c =
     (if has_node i c \<and> has_folder pid c then
        Inr (c\<lparr>nodes := map (\<lambda>n. if node_id n = i then n\<lparr>parentId := Some pid\<rparr> else n) (nodes c)\<rparr>)
      else Inl BookmarkError)"

text \<open>\<open>chrome.bookmarks.remove(id)\<close>: a bookmark or an empty folder.\<close>

definition bookmarks_remove :: "string \<Rightarrow> chrome_bookmarks \<Rightarrow> error + chrome_bookmarks" where
  "bookmarks_remove i c =
     (if has_node i c \<and> \<not> list_ex (\<lambda>n. parentId n = Some i) (nodes c) then
        Inr (c\<lparr>nodes := filter (\<lambda>n. node_id n \<noteq> i) (nodes c)\<rparr>)
      else Inl BookmarkError)"

text \<open>\<open>chrome.bookmarks.search({url})\<close>: every bookmark of the store with that URL.\<close>

definition bookmarks_search :: "string \<Rightarrow> chrome_bookmarks \<Rightarrow> BookmarkTreeNode list" where
  "bookmarks_search u c = filter (\<lambda>n. node_url n = Some u) (nodes c)"

text \<open>\<open>chrome.bookmarks.getSubTree(id)\<close>: a one-element array with the node.\<close>

definition bookmarks_getSubTree :: "string \<Rightarrow> chrome_bookmarks \<Rightarrow> error + BookmarkTreeNode list" where
  "bookmarks_getSubTree i c =
     (case find (\<lambda>n. node_id n = i) (nodes c) of
        None \<Rightarrow> Inl BookmarkError
      | Some n \<Rightarrow> Inr [n])"

text \<open>\<open>chrome.bookmarks.getChildren(id)\<close>.\<close>

definition bookmarks_getChildren :: "string \<Rightarrow> chrome_bookmarks \<Rightarrow> error + BookmarkTreeNode list" where
  "bookmarks_getChildren i c =
     (if has_node i c then Inr (filter (\<lambda>n. parentId n = Some i) (nodes c))
      else Inl BookmarkError)"

subsection \<open>The persisted state: \<open>chrome.storage.local\<close>\<close>

text \<open>
  The value stored under the key \<open>syncState\<close> is a plain object: the two maps as objects
  with string keys, the date as a string. A plain object is the list of its properties
  in creation order; \<open>Object.entries\<close> lists the array-index keys first, in ascending
  order, and the other keys after them in creation order.
\<close>

record StoredSyncState =
  stored_bookmarks :: "(string \<times> BookmarkState) list option"
  stored_collectionFolders :: "(string \<times> string) list option"
  stored_lastSync :: string

definition array_index :: "string \<Rightarrow> int option" where
  "array_index s =
     (if s \<noteq> [] \<and> list_all (digit_in 10) s \<and> (s = ''0'' \<or> take 1 s \<noteq> ''0'')
         \<and> digits_value 10 s < 2 ^ 32 - 1
      then Some (digits_value 10 s) else None)"

definition Object_entries :: "(string \<times> 'v) list \<Rightarrow> (string \<times> 'v) list" where
  "Object_entries ps =
     sort_key (\<lambda>p. case array_index (fst p) of None \<Rightarrow> 0 | Some i \<Rightarrow> i)
       (filter (\<lambda>p. array_index (fst p) \<noteq> None) ps)
     @ filter (\<lambda>p. array_index (fst p) = None) ps"

definition Object_fromEntries :: "(string \<times> 'v) list \<Rightarrow> (string \<times> 'v) list" where
  "Object_fromEntries es = fold (\<lambda>e m. AList.update (fst e) (snd e) m) es []"

text \<open>
  The engine runs in a JavaScript runtime that gives it the clock and the conversion of
  a date (a time value in milliseconds) to and from its ISO-8601 string.
\<close>

record js_runtime =
  Date_now :: int
  toISOString :: "int \<Rightarrow> string"
  Date_parse :: "string \<Rightarrow> int"

text \<open>
  What a run of the repository can touch: the bookmark store, the stored sync state
  with the number of \<open>chrome.storage.local.set\<close> calls made so far, and the field
  \<open>this.syncState\<close> of the repository object.
\<close>

record world =
  chrome :: chrome_bookmarks
  storage_syncState :: "StoredSyncState option"
  storage_writes :: nat
  syncState :: "SyncState option"

section \<open>ChromeBookmarkRepository\<close>

definition findFolderById :: "string \<Rightarrow> chrome_bookmarks \<Rightarrow> error + BookmarkTreeNode option" where
  "findFolderById i c =
     (case bookmarks_getSubTree i c of
        Inl e \<Rightarrow> Inl e
      | Inr ns \<Rightarrow> (case ns of [] \<Rightarrow> Inr None | folder # _ \<Rightarrow> Inr (Some folder)))"

definition getFolderById :: "string \<Rightarrow> chrome_bookmarks \<Rightarrow> error + BookmarkTreeNode" where
  "getFolderById i c =
     (case findFolderById i c of
        Inl e \<Rightarrow> Inl e
      | Inr None \<Rightarrow> Inl (FolderNotFound i)
      | Inr (Some folder) \<Rightarrow> Inr folder)"

definition loadSyncState :: "js_runtime \<Rightarrow> world \<Rightarrow> SyncState option" where
  "loadSyncState rt w =
     (case storage_syncState w of
        None \<Rightarrow> None
      | Some st \<Rightarrow>
          Some \<lparr>bookmarks =
                  Map_of_entries (Object_entries
                    (case stored_bookmarks st of None \<Rightarrow> [] | Some b \<Rightarrow> b)),
                collectionFolders =
                  Map_of_entries (map (\<lambda>e. (parseInt (fst e), snd e)) (Object_entries
                    (case stored_collectionFolders st of None \<Rightarrow> [] | Some f \<Rightarrow> f))),
                lastSync = Date_parse rt (stored_lastSync st)\<rparr>)"

definition saveSyncState :: "js_runtime \<Rightarrow> SyncState \<Rightarrow> world \<Rightarrow> world" where
  "saveSyncState rt state w =
     w\<lparr>storage_syncState :=
         Some \<lparr>stored_bookmarks = Some (Object_fromEntries (bookmarks state)),
               stored_collectionFolders =
                 Some (Object_fromEntries
                   (map (\<lambda>e. (number_to_string (fst e), snd e)) (collectionFolders state))),
               stored_lastSync = toISOString rt (lastSync state)\<rparr>,
       storage_writes := Suc (storage_writes w),
       syncState := Some state\<rparr>"

subsection \<open>The state of an incremental run\<close>

record Stats =
  added :: nat
  updated :: nat
  deleted :: nat
  unchanged :: nat

text \<open>
  The objects a run mutates while it walks: the bookmark store, the two new maps and the
  counters. A step answers \<open>Inr\<close> when it returns and \<open>Inl\<close> the error when it throws;
  in both cases it answers the state it has reached, since nothing is rolled back.
\<close>

record sync_acc =
  browser :: chrome_bookmarks
  newBookmarks :: "(string \<times> BookmarkState) list"
  newCollectionFolders :: "(number \<times> string) list"
  stats :: Stats

record sync_opts =
  baseFolder :: BookmarkTreeNode
  tree :: TreeNode
  getAllRaindrops :: "int \<Rightarrow> Raindrop list option"
  includeUnsorted :: "bool option"

definition UNSORTED_ID :: int where
  "UNSORTED_ID = - 1"

text \<open>The title of the Unsorted folder, byte for byte as the source file has it.\<close>

definition UNSORTED_TITLE :: string where
  "UNSORTED_TITLE =
     [CHR 0xC3, CHR 0xB0, CHR 0xC5, CHR 0xB8, CHR 0xE2, CHR 0x80, CHR 0x9C, CHR 0xC2, CHR 0xA5]
     @ '' Unsorted''"

text \<open>\<open>tree.data?._id ?? -1\<close>, \<open>tree.data?.title\<close> and \<open>tree.data?.title || 'Unsorted'\<close>.\<close>

definition collectionIdOf :: "TreeNode \<Rightarrow> int" where
  "collectionIdOf t = (case data t of None \<Rightarrow> - 1 | Some c \<Rightarrow> col_id c)"

definition titleOf :: "TreeNode \<Rightarrow> string option" where
  "titleOf t = (case data t of None \<Rightarrow> None | Some c \<Rightarrow> Some (col_title c))"

definition collectionTitleOf :: "TreeNode \<Rightarrow> string" where
  "collectionTitleOf t = (case titleOf t of None \<Rightarrow> ''Unsorted'' | Some s \<Rightarrow> if s = [] then ''Unsorted'' else s)"

definition bookmarkStateOf :: "int \<Rightarrow> Raindrop \<Rightarrow> BookmarkState" where
  "bookmarkStateOf cid rd =
     \<lparr>url = link rd, title = rd_title rd, collectionId = cid, raindropId = rd_id rd,
      lastModified = lastUpdate rd,
      cover = (if truthy (rd_cover rd) then rd_cover rd else None)\<rparr>"

definition count_added :: "sync_acc \<Rightarrow> sync_acc" where
  "count_added a = a\<lparr>stats := (stats a)\<lparr>added := Suc (added (stats a))\<rparr>\<rparr>"

definition count_updated :: "sync_acc \<Rightarrow> sync_acc" where
  "count_updated a = a\<lparr>stats := (stats a)\<lparr>updated := Suc (updated (stats a))\<rparr>\<rparr>"

definition count_deleted :: "sync_acc \<Rightarrow> sync_acc" where
  "count_deleted a = a\<lparr>stats := (stats a)\<lparr>deleted := Suc (deleted (stats a))\<rparr>\<rparr>"

definition count_unchanged :: "sync_acc \<Rightarrow> sync_acc" where
  "count_unchanged a = a\<lparr>stats := (stats a)\<lparr>unchanged := Suc (unchanged (stats a))\<rparr>\<rparr>"

subsection \<open>processCollectionForIncremental\<close>

text \<open>
  Lines 219 to 242: the folder of a collection node. A node without a title keeps the
  parent folder. A node with a title asks the map \<open>collectionFolders\<close> it was handed,
  which is the new map of this run, fetches the folder it names, and creates a folder
  under the parent when the map has no entry or the fetch throws.
\<close>

definition resolveCollectionFolder ::
  "BookmarkTreeNode \<Rightarrow> TreeNode \<Rightarrow> sync_acc \<Rightarrow> (error + BookmarkTreeNode) \<times> sync_acc" where
  "resolveCollectionFolder parentFolder t a =
     (if truthy (titleOf t) then
        (let existingFolderId = map_of (newCollectionFolders a) (Num (collectionIdOf t));
             created = bookmarks_create (node_id parentFolder) (collectionTitleOf t) None (browser a);
             found =
               (case existingFolderId of
                  None \<Rightarrow> created
                | Some i \<Rightarrow>
                    if i \<noteq> [] then
                      (case getFolderById i (browser a) of
                         Inl e \<Rightarrow> created
                       | Inr folder \<Rightarrow> Inr (folder, browser a))
                    else created)
         in case found of
              Inl e \<Rightarrow> (Inl e, a)
            | Inr (folder, c) \<Rightarrow>
                (Inr folder,
                 a\<lparr>browser := c,
                   newCollectionFolders :=
                     AList.update (Num (collectionIdOf t)) (node_id folder) (newCollectionFolders a)\<rparr>))
      else (Inr parentFolder, a))"

text \<open>
  Lines 270 to 279: the loop over the bookmarks a search by URL has found. Each one
  that has a parent gets the new title and, when the collection changed, the new parent.
\<close>

fun updateFound ::
  "string \<Rightarrow> bool \<Rightarrow> string \<Rightarrow> BookmarkTreeNode list \<Rightarrow> chrome_bookmarks
     \<Rightarrow> (error + unit) \<times> chrome_bookmarks" where
  "updateFound t moved fid [] c = (Inr (), c)"
| "updateFound t moved fid (bm # results) c =
     (if truthy (parentId bm) then
        (case bookmarks_update (node_id bm) t c of
           Inl e \<Rightarrow> (Inl e, c)
         | Inr c1 \<Rightarrow>
             if moved then
               (case bookmarks_move (node_id bm) fid c1 of
                  Inl e \<Rightarrow> (Inl e, c1)
                | Inr c2 \<Rightarrow> updateFound t moved fid results c2)
             else updateFound t moved fid results c1)
      else updateFound t moved fid results c)"

text \<open>Lines 249 to 283: the body of the loop over the raindrops of a collection.\<close>

definition processRaindrop ::
  "(string \<times> BookmarkState) list \<Rightarrow> BookmarkTreeNode \<Rightarrow> int \<Rightarrow> Raindrop \<Rightarrow> sync_acc
     \<Rightarrow> (error + unit) \<times> sync_acc" where
  "processRaindrop previousBookmarks folder cid rd a =
     (let a1 = a\<lparr>newBookmarks := AList.update (link rd) (bookmarkStateOf cid rd) (newBookmarks a)\<rparr>
      in case map_of previousBookmarks (link rd) of
           None \<Rightarrow>
             (case bookmarks_create (node_id folder) (rd_title rd) (Some (link rd)) (browser a1) of
                Inl e \<Rightarrow> (Inl e, a1)
              | Inr (n, c) \<Rightarrow> (Inr (), count_added (a1\<lparr>browser := c\<rparr>)))
         | Some previous \<Rightarrow>
             if \<not> (title previous = rd_title rd \<and> collectionId previous = cid) then
               (case updateFound (rd_title rd) (collectionId previous \<noteq> cid) (node_id folder)
                       (bookmarks_search (link rd) (browser a1)) (browser a1) of
                  (Inl e, c) \<Rightarrow> (Inl e, a1\<lparr>browser := c\<rparr>)
                | (Inr _, c) \<Rightarrow> (Inr (), count_updated (a1\<lparr>browser := c\<rparr>)))
             else (Inr (), count_unchanged a1))"

fun processRaindrops ::
  "(string \<times> BookmarkState) list \<Rightarrow> BookmarkTreeNode \<Rightarrow> int \<Rightarrow> Raindrop list \<Rightarrow> sync_acc
     \<Rightarrow> (error + unit) \<times> sync_acc" where
  "processRaindrops previousBookmarks folder cid [] a = (Inr (), a)"
| "processRaindrops previousBookmarks folder cid (rd # raindrops) a =
     (case processRaindrop previousBookmarks folder cid rd a of
        (Inl e, a1) \<Rightarrow> (Inl e, a1)
      | (Inr _, a1) \<Rightarrow> processRaindrops previousBookmarks folder cid raindrops a1)"

text \<open>
  The method itself: resolve the folder, fetch the raindrops of the collection (a failed
  fetch throws), process them, then process the child collections one after the other
  with the resolved folder as their parent.
\<close>

fun processCollectionForIncremental ::
  "(int \<Rightarrow> Raindrop list option) \<Rightarrow> (string \<times> BookmarkState) list \<Rightarrow> BookmarkTreeNode
     \<Rightarrow> TreeNode \<Rightarrow> sync_acc \<Rightarrow> (error + unit) \<times> sync_acc"
  and processChildren ::
  "(int \<Rightarrow> Raindrop list option) \<Rightarrow> (string \<times> BookmarkState) list \<Rightarrow> BookmarkTreeNode
     \<Rightarrow> TreeNode list \<Rightarrow> sync_acc \<Rightarrow> (error + unit) \<times> sync_acc" where
  "processCollectionForIncremental client previousBookmarks parentFolder (TreeNode d cs) a =
     (case resolveCollectionFolder parentFolder (TreeNode d cs) a of
        (Inl e, a1) \<Rightarrow> (Inl e, a1)
      | (Inr folder, a1) \<Rightarrow>
          (case client (collectionIdOf (TreeNode d cs)) of
             None \<Rightarrow> (Inl FetchError, a1)
           | Some raindrops \<Rightarrow>
               (case processRaindrops previousBookmarks folder (collectionIdOf (TreeNode d cs))
                       raindrops a1 of
                  (Inl e, a2) \<Rightarrow> (Inl e, a2)
                | (Inr _, a2) \<Rightarrow> processChildren client previousBookmarks folder cs a2)))"
| "processChildren client previousBookmarks folder [] a = (Inr (), a)"
| "processChildren client previousBookmarks folder (child # cs) a =
     (case processCollectionForIncremental client previousBookmarks folder child a of
        (Inl e, a1) \<Rightarrow> (Inl e, a1)
      | (Inr _, a1) \<Rightarrow> processChildren client previousBookmarks folder cs a1)"

subsection \<open>syncUnsortedCollection\<close>

text \<open>Lines 314 to 339: find or create the Unsorted folder.\<close>

definition resolveUnsortedFolder ::
  "BookmarkTreeNode \<Rightarrow> sync_acc \<Rightarrow> (error + BookmarkTreeNode) \<times> sync_acc" where
  "resolveUnsortedFolder base a =
     (let created = bookmarks_create (node_id base) UNSORTED_TITLE None (browser a);
          byName =
            (case bookmarks_getChildren (node_id base) (browser a) of
               Inl e \<Rightarrow> Inl e
             | Inr cs \<Rightarrow>
                 (case find (\<lambda>c. node_title c = UNSORTED_TITLE \<and> \<not> truthy (node_url c)) cs of
                    Some existing \<Rightarrow> Inr (existing, browser a)
                  | None \<Rightarrow> created));
          found =
            (case map_of (newCollectionFolders a) (Num UNSORTED_ID) of
               None \<Rightarrow> byName
             | Some i \<Rightarrow>
                 if i \<noteq> [] then
                   (case getFolderById i (browser a) of
                      Inl e \<Rightarrow> created
                    | Inr folder \<Rightarrow> Inr (folder, browser a))
                 else byName)
      in case found of
           Inl e \<Rightarrow> (Inl e, a)
         | Inr (folder, c) \<Rightarrow> (Inr folder, a\<lparr>browser := c\<rparr>))"

text \<open>Lines 370 to 373: every bookmark the search has found gets the new title.\<close>

fun retitleFound ::
  "string \<Rightarrow> BookmarkTreeNode list \<Rightarrow> chrome_bookmarks \<Rightarrow> (error + unit) \<times> chrome_bookmarks" where
  "retitleFound t [] c = (Inr (), c)"
| "retitleFound t (bm # results) c =
     (case bookmarks_update (node_id bm) t c of
        Inl e \<Rightarrow> (Inl e, c)
      | Inr c1 \<Rightarrow> retitleFound t results c1)"

text \<open>Lines 348 to 377: the body of the loop over the unsorted raindrops.\<close>

definition processUnsortedRaindrop ::
  "(string \<times> BookmarkState) list \<Rightarrow> BookmarkTreeNode \<Rightarrow> Raindrop \<Rightarrow> sync_acc
     \<Rightarrow> (error + unit) \<times> sync_acc" where
  "processUnsortedRaindrop previousBookmarks unsortedFolder rd a =
     (if map_of (newBookmarks a) (link rd) \<noteq> None then (Inr (), a)
      else
        (let a1 = a\<lparr>newBookmarks :=
                      AList.update (link rd) (bookmarkStateOf UNSORTED_ID rd) (newBookmarks a)\<rparr>
         in case map_of previousBookmarks (link rd) of
              None \<Rightarrow>
                (case bookmarks_create (node_id unsortedFolder) (rd_title rd) (Some (link rd))
                        (browser a1) of
                   Inl e \<Rightarrow> (Inl e, a1)
                 | Inr (n, c) \<Rightarrow> (Inr (), count_added (a1\<lparr>browser := c\<rparr>)))
            | Some previous \<Rightarrow>
                if title previous \<noteq> rd_title rd then
                  (case retitleFound (rd_title rd) (bookmarks_search (link rd) (browser a1))
                          (browser a1) of
                     (Inl e, c) \<Rightarrow> (Inl e, a1\<lparr>browser := c\<rparr>)
                   | (Inr _, c) \<Rightarrow> (Inr (), count_updated (a1\<lparr>browser := c\<rparr>)))
                else (Inr (), count_unchanged a1)))"

fun processUnsortedRaindrops ::
  "(string \<times> BookmarkState) list \<Rightarrow> BookmarkTreeNode \<Rightarrow> Raindrop list \<Rightarrow> sync_acc
     \<Rightarrow> (error + unit) \<times> sync_acc" where
  "processUnsortedRaindrops previousBookmarks unsortedFolder [] a = (Inr (), a)"
| "processUnsortedRaindrops previousBookmarks unsortedFolder (rd # raindrops) a =
     (case processUnsortedRaindrop previousBookmarks unsortedFolder rd a of
        (Inl e, a1) \<Rightarrow> (Inl e, a1)
      | (Inr _, a1) \<Rightarrow> processUnsortedRaindrops previousBookmarks unsortedFolder raindrops a1)"

text \<open>
  The method: an error while the folder is resolved is thrown on; the fetch and the loop
  stand in a \<open>try\<close> whose \<open>catch\<close> only logs, so an error there ends the loop and the
  method returns with the state reached.
\<close>

definition syncUnsortedCollection ::
  "(int \<Rightarrow> Raindrop list option) \<Rightarrow> (string \<times> BookmarkState) list \<Rightarrow> BookmarkTreeNode
     \<Rightarrow> sync_acc \<Rightarrow> (error + unit) \<times> sync_acc" where
  "syncUnsortedCollection client previousBookmarks base a =
     (case resolveUnsortedFolder base a of
        (Inl e, a1) \<Rightarrow> (Inl e, a1)
      | (Inr unsortedFolder, a1) \<Rightarrow>
          (let a2 = a1\<lparr>newCollectionFolders :=
                        AList.update (Num UNSORTED_ID) (node_id unsortedFolder)
                          (newCollectionFolders a1)\<rparr>
           in case client UNSORTED_ID of
                None \<Rightarrow> (Inr (), a2)
              | Some raindrops \<Rightarrow>
                  (Inr (), snd (processUnsortedRaindrops previousBookmarks unsortedFolder raindrops a2))))"

subsection \<open>incrementalSync\<close>

definition isInSyncFolder :: "string \<Rightarrow> string \<Rightarrow> bool" where
  "isInSyncFolder folderId syncFolderId = True"

text \<open>Lines 182 to 187: remove the bookmarks a search has found.\<close>

fun removeFound :: "string \<Rightarrow> BookmarkTreeNode list \<Rightarrow> sync_acc \<Rightarrow> (error + unit) \<times> sync_acc" where
  "removeFound baseId [] a = (Inr (), a)"
| "removeFound baseId (bm # results) a =
     (if (case parentId bm of None \<Rightarrow> False | Some p \<Rightarrow> p \<noteq> [] \<and> isInSyncFolder p baseId) then
        (case bookmarks_remove (node_id bm) (browser a) of
           Inl e \<Rightarrow> (Inl e, a)
         | Inr c \<Rightarrow> removeFound baseId results (count_deleted (a\<lparr>browser := c\<rparr>)))
      else removeFound baseId results a)"

text \<open>
  Lines 177 to 192: the deletion pass over the entries of the previous map. The \<open>try\<close>
  around each entry catches an error of its search and removals.
\<close>

fun deleteStale :: "string \<Rightarrow> (string \<times> BookmarkState) list \<Rightarrow> sync_acc \<Rightarrow> sync_acc" where
  "deleteStale baseId [] a = a"
| "deleteStale baseId (entry # previous) a =
     (if map_of (newBookmarks a) (fst entry) = None then
        deleteStale baseId previous
          (snd (removeFound baseId (bookmarks_search (fst entry) (browser a)) a))
      else deleteStale baseId previous a)"

definition incrementalSync :: "js_runtime \<Rightarrow> sync_opts \<Rightarrow> world \<Rightarrow> (error + Stats) \<times> world" where
  "incrementalSync rt opts w =
     (let previousBookmarks = (case loadSyncState rt w of None \<Rightarrow> [] | Some s \<Rightarrow> bookmarks s);
          a0 = \<lparr>browser = chrome w, newBookmarks = [], newCollectionFolders = [],
                stats = \<lparr>added = 0, updated = 0, deleted = 0, unchanged = 0\<rparr>\<rparr>
      in case processCollectionForIncremental (getAllRaindrops opts) previousBookmarks
                (baseFolder opts) (tree opts) a0 of
           (Inl e, a1) \<Rightarrow> (Inl e, w\<lparr>chrome := browser a1\<rparr>)
         | (Inr _, a1) \<Rightarrow>
             (case (if includeUnsorted opts \<noteq> Some False
                    then syncUnsortedCollection (getAllRaindrops opts) previousBookmarks
                           (baseFolder opts) a1
                    else (Inr (), a1)) of
                (Inl e, a2) \<Rightarrow> (Inl e, w\<lparr>chrome := browser a2\<rparr>)
              | (Inr _, a2) \<Rightarrow>
                  (let a3 = deleteStale (node_id (baseFolder opts)) previousBookmarks a2
                   in (Inr (stats a3),
                       saveSyncState rt
                         \<lparr>bookmarks = newBookmarks a3,
                          collectionFolders = newCollectionFolders a3,
                          lastSync = Date_now rt\<rparr>
                         (w\<lparr>chrome := browser a3\<rparr>)))))"

section \<open>Concrete inputs\<close>

text \<open>
  A small bookmark store, a runtime and a handful of sources on which the engine is run
  below. The store has the root \<open>0\<close> and under it the managed folder \<open>1\<close>, the
  destination root of every run.
\<close>

definition folderNode :: "string \<Rightarrow> string option \<Rightarrow> string \<Rightarrow> BookmarkTreeNode" where
  "folderNode i p t = \<lparr>node_id = i, parentId = p, node_title = t, node_url = None\<rparr>"

definition bookmarkNode :: "string \<Rightarrow> string \<Rightarrow> string \<Rightarrow> string \<Rightarrow> BookmarkTreeNode" where
  "bookmarkNode i p t u = \<lparr>node_id = i, parentId = Some p, node_title = t, node_url = Some u\<rparr>"

definition raindrop :: "int \<Rightarrow> string \<Rightarrow> string \<Rightarrow> Raindrop" where
  "raindrop i u t = \<lparr>rd_id = i, link = u, rd_title = t, lastUpdate = None, rd_cover = None\<rparr>"

definition collection :: "int \<Rightarrow> string \<Rightarrow> TreeNode list \<Rightarrow> TreeNode" where
  "collection i t cs = TreeNode (Some \<lparr>col_id = i, col_title = t\<rparr>) cs"

definition demoRuntime :: js_runtime where
  "demoRuntime = \<lparr>Date_now = 1000, toISOString = (\<lambda>t. decimal (nat t)),
                   Date_parse = (\<lambda>s. digits_value 10 s)\<rparr>"

definition rootNode :: BookmarkTreeNode where
  "rootNode = folderNode ''0'' None []"

definition managedFolder :: BookmarkTreeNode where
  "managedFolder = folderNode ''1'' (Some ''0'') ''Raindrop''"

definition storedWith ::
  "(string \<times> BookmarkState) list \<Rightarrow> (string \<times> string) list \<Rightarrow> StoredSyncState" where
  "storedWith bs fs =
     \<lparr>stored_bookmarks = Some bs, stored_collectionFolders = Some fs, stored_lastSync = ''500''\<rparr>"

definition worldOf :: "BookmarkTreeNode list \<Rightarrow> nat \<Rightarrow> StoredSyncState option \<Rightarrow> world" where
  "worldOf ns k st =
     \<lparr>chrome = \<lparr>nodes = rootNode # managedFolder # ns, nextId = k\<rparr>,
      storage_syncState = st, storage_writes = 0, syncState = None\<rparr>"

definition optsOf :: "TreeNode \<Rightarrow> (int \<Rightarrow> Raindrop list option) \<Rightarrow> bool option \<Rightarrow> sync_opts" where
  "optsOf t client unsorted =
     \<lparr>baseFolder = managedFolder, tree = t, getAllRaindrops = client, includeUnsorted = unsorted\<rparr>"

definition siteState :: "int \<Rightarrow> BookmarkState" where
  "siteState cid =
     \<lparr>url = ''http://a.com/'', title = ''Site'', collectionId = cid, raindropId = 10,
      lastModified = None, cover = None\<rparr>"

text \<open>A state as a run leaves it.\<close>

definition demoState :: SyncState where
  "demoState =
     \<lparr>bookmarks = [(''http://a.com/'', siteState 1)],
      collectionFolders = [(Num 1, ''2''), (Num (- 1), ''4'')], lastSync = 1000\<rparr>"

text \<open>
  A stale entry and a private bookmark: the previous state knows \<open>http://a.com/\<close>, the
  source no longer lists it, and the store has a bookmark with that URL in the folder
  \<open>2\<close>, which the user keeps beside the managed folder.
\<close>

definition staleWorld :: world where
  "staleWorld =
     worldOf [folderNode ''2'' (Some ''0'') ''Personal'',
              bookmarkNode ''3'' ''2'' ''Mine'' ''http://a.com/''] 4
       (Some (storedWith [(''http://a.com/'', siteState 7)] []))"

definition emptySource :: sync_opts where
  "emptySource = optsOf (TreeNode None []) (\<lambda>c. Some []) (Some False)"

text \<open>
  A folder mapped by the previous run: the stored state maps collection 5 to the folder
  \<open>2\<close>, which is still in the managed folder; the source has collection 5, "Reading".
\<close>

definition mappedWorld :: world where
  "mappedWorld =
     worldOf [folderNode ''2'' (Some ''1'') ''Reading''] 3
       (Some (storedWith [] [(''5'', ''2'')]))"

definition readingSource :: sync_opts where
  "readingSource = optsOf (TreeNode None [collection 5 ''Reading'' []]) (\<lambda>c. Some []) (Some False)"

text \<open>One URL listed in two collections, synced into the empty managed folder.\<close>

definition freshWorld :: world where
  "freshWorld = worldOf [] 2 None"

definition twiceListedSource :: sync_opts where
  "twiceListedSource =
     optsOf (TreeNode None [collection 1 ''Work'' [], collection 2 ''Home'' []])
       (\<lambda>c. if c = 1 then Some [raindrop 10 ''http://a.com/'' ''Site'']
            else if c = 2 then Some [raindrop 11 ''http://a.com/'' ''Site'']
            else Some [])
       (Some False)"

text \<open>
  A bookmark synced from collection 1 into its folder \<open>2\<close>; the source has since moved
  the raindrop, title unchanged, to the unsorted bucket.
\<close>

definition syncedWorld :: world where
  "syncedWorld =
     worldOf [folderNode ''2'' (Some ''1'') ''Work'',
              bookmarkNode ''3'' ''2'' ''Site'' ''http://a.com/''] 4
       (Some (storedWith [(''http://a.com/'', siteState 1)] [(''1'', ''2'')]))"

definition movedToUnsortedSource :: sync_opts where
  "movedToUnsortedSource =
     optsOf (collection 1 ''Work'' [])
       (\<lambda>c. if c = - 1 then Some [raindrop 10 ''http://a.com/'' ''Site''] else Some [])
       None"

text \<open>The same move, seen by a walk whose root has no collection (it fetches the bucket).\<close>

definition movedToRootSource :: sync_opts where
  "movedToRootSource =
     optsOf (TreeNode None [])
       (\<lambda>c. if c = - 1 then Some [raindrop 10 ''http://a.com/'' ''Site''] else Some [])
       None"

text \<open>A URL saved both in collection 1 and in the unsorted bucket, never synced before.\<close>

definition listedAndUnsortedSource :: sync_opts where
  "listedAndUnsortedSource =
     optsOf (collection 1 ''Work'' [])
       (\<lambda>c. if c = 1 then Some [raindrop 10 ''http://a.com/'' ''Site'']
            else if c = - 1 then Some [raindrop 11 ''http://a.com/'' ''Site'']
            else Some [])
       None"

text \<open>A source whose second collection cannot be fetched.\<close>

definition failingSource :: sync_opts where
  "failingSource =
     optsOf (TreeNode None [collection 1 ''Work'' [], collection 2 ''Home'' []])
       (\<lambda>c. if c = 1 then Some [raindrop 10 ''http://a.com/'' ''Site'']
            else if c = 2 then None
            else Some [])
       (Some False)"

text \<open>
  The accumulator of a run that starts on the store with the private bookmark, and the
  raindrop with a new title that the source now lists in collection 1.
\<close>

definition staleAcc :: sync_acc where
  "staleAcc =
     \<lparr>browser = chrome staleWorld, newBookmarks = [], newCollectionFolders = [],
      stats = \<lparr>added = 0, updated = 0, deleted = 0, unchanged = 0\<rparr>\<rparr>"

definition renamedRaindrop :: Raindrop where
  "renamedRaindrop = raindrop 10 ''http://a.com/'' ''New''"

text \<open>
  The raindrop of \<open>syncedWorld\<close>, moved from the collection 1 to the collection 2,
  title unchanged; both collections are titled children of a root without a collection.
\<close>

definition recollectedSource :: sync_opts where
  "recollectedSource =
     optsOf (TreeNode None [collection 1 ''Work'' [], collection 2 ''Home'' []])
       (\<lambda>c. if c = 2 then Some [raindrop 10 ''http://a.com/'' ''Site''] else Some [])
       None"

section \<open>Notions for the statements\<close>

text \<open>
  What the update branch does to a bookmark it has found: the new title and, when the
  collection changed, the new parent; and a store in which the bookmarks with the given
  ids have undergone it.
\<close>

definition touched :: "string \<Rightarrow> bool \<Rightarrow> string \<Rightarrow> BookmarkTreeNode \<Rightarrow> BookmarkTreeNode" where
  "touched t moved fid n =
     (if moved then n\<lparr>node_title := t, parentId := Some fid\<rparr> else n\<lparr>node_title := t\<rparr>)"

definition touchAll ::
  "string set \<Rightarrow> string \<Rightarrow> bool \<Rightarrow> string \<Rightarrow> chrome_bookmarks \<Rightarrow> chrome_bookmarks" where
  "touchAll ids t moved fid c =
     c\<lparr>nodes := map (\<lambda>n. if node_id n \<in> ids then touched t moved fid n else n) (nodes c)\<rparr>"

text \<open>
  The items the main walk fetches, in the order it meets them, each with the collection
  id it is fetched under.
\<close>

fun walkItems :: "(int \<Rightarrow> Raindrop list option) \<Rightarrow> TreeNode \<Rightarrow> (int \<times> Raindrop) list"
  and walkItemsOfAll :: "(int \<Rightarrow> Raindrop list option) \<Rightarrow> TreeNode list \<Rightarrow> (int \<times> Raindrop) list" where
  "walkItems client (TreeNode d cs) =
     map (Pair (collectionIdOf (TreeNode d cs)))
       (case client (collectionIdOf (TreeNode d cs)) of None \<Rightarrow> [] | Some raindrops \<Rightarrow> raindrops)
     @ walkItemsOfAll client cs"
| "walkItemsOfAll client [] = []"
| "walkItemsOfAll client (child # cs) = walkItems client child @ walkItemsOfAll client cs"

text \<open>
  The raindrops of the unsorted listing that are not skipped: those whose URL is neither
  among the URLs seen by the main walk nor earlier in the listing.
\<close>

fun unsortedFresh :: "string list \<Rightarrow> Raindrop list \<Rightarrow> Raindrop list" where
  "unsortedFresh seen [] = []"
| "unsortedFresh seen (rd # raindrops) =
     (if link rd \<in> set seen then unsortedFresh seen raindrops
      else rd # unsortedFresh (link rd # seen) raindrops)"

definition unsortedItems :: "sync_opts \<Rightarrow> Raindrop list" where
  "unsortedItems opts =
     (if includeUnsorted opts = Some False then []
      else case getAllRaindrops opts UNSORTED_ID of
             None \<Rightarrow> []
           | Some raindrops \<Rightarrow>
               unsortedFresh (map (\<lambda>i. link (snd i)) (walkItems (getAllRaindrops opts) (tree opts)))
                 raindrops)"

text \<open>The previous map and the empty accumulator a run starts from.\<close>

definition previousBookmarksOf :: "js_runtime \<Rightarrow> world \<Rightarrow> (string \<times> BookmarkState) list" where
  "previousBookmarksOf rt w = (case loadSyncState rt w of None \<Rightarrow> [] | Some s \<Rightarrow> bookmarks s)"

definition emptyAcc :: "world \<Rightarrow> sync_acc" where
  "emptyAcc w = \<lparr>browser = chrome w, newBookmarks = [], newCollectionFolders = [],
                 stats = \<lparr>added = 0, updated = 0, deleted = 0, unchanged = 0\<rparr>\<rparr>"

text \<open>
  A stretch of a first run: it added \<open>k\<close> items, only appended nodes to the store,
  put the given URLs into the new map, and kept every recorded folder in the store.
\<close>

definition grewBy :: "nat \<Rightarrow> string set \<Rightarrow> sync_acc \<Rightarrow> sync_acc \<Rightarrow> bool" where
  "grewBy k links a a' =
     (stats a' = (stats a)\<lparr>added := added (stats a) + k\<rparr>
      \<and> (\<exists>ns. nodes (browser a') = nodes (browser a) @ ns)
      \<and> fst ` set (newBookmarks a') = fst ` set (newBookmarks a) \<union> links
      \<and> ((\<forall>v\<in>snd ` set (newCollectionFolders a). has_folder v (browser a)) \<longrightarrow>
          (\<forall>v\<in>snd ` set (newCollectionFolders a'). has_folder v (browser a'))))"

text \<open>
  The ids the store has issued so far, and a store as \<open>bookmarks_create\<close> builds it:
  every node has an id of its own, issued from the counter.
\<close>

definition issuedIds :: "chrome_bookmarks \<Rightarrow> string list" where
  "issuedIds c = map decimal [0..<nextId c]"

definition wf_store :: "chrome_bookmarks \<Rightarrow> bool" where
  "wf_store c =
     (distinct (map node_id (nodes c)) \<and> set (map node_id (nodes c)) \<subseteq> set (issuedIds c))"

text \<open>
  Every bookmark with the URL \<open>u\<close> that has a parent carries the title \<open>t\<close> and, when
  \<open>moved\<close>, sits in the folder \<open>fid\<close>.
\<close>

definition settled :: "string \<Rightarrow> string \<Rightarrow> bool \<Rightarrow> string \<Rightarrow> chrome_bookmarks \<Rightarrow> bool" where
  "settled u t moved fid c =
     list_all (\<lambda>n. truthy (parentId n) \<longrightarrow> node_title n = t \<and> (moved \<longrightarrow> parentId n = Some fid))
       (bookmarks_search u c)"

text \<open>The nodes a walk of the collection tree visits, in order.\<close>

fun treeNodes :: "TreeNode \<Rightarrow> TreeNode list"
  and treeNodesOfAll :: "TreeNode list \<Rightarrow> TreeNode list" where
  "treeNodes (TreeNode d cs) = TreeNode d cs # treeNodesOfAll cs"
| "treeNodesOfAll [] = []"
| "treeNodesOfAll (child # cs) = treeNodes child @ treeNodesOfAll cs"

text \<open>
  What a stretch of a run does to the bookmarks of one URL and to the folder of one
  collection: \<open>kept\<close> when it leaves both alone, \<open>placed\<close> when the collection has its
  folder recorded and, the URL being listed, its bookmarks are settled there;
  \<open>walked\<close> sums up a walk over the nodes \<open>ns\<close> that listed \<open>items\<close>.
\<close>

definition kept :: "string \<Rightarrow> int \<Rightarrow> sync_acc \<Rightarrow> sync_acc \<Rightarrow> bool" where
  "kept u cid a a' =
     (bookmarks_search u (browser a') = bookmarks_search u (browser a)
      \<and> map_of (newCollectionFolders a') (Num cid) = map_of (newCollectionFolders a) (Num cid))"

definition placed :: "string \<Rightarrow> string \<Rightarrow> bool \<Rightarrow> int \<Rightarrow> bool \<Rightarrow> sync_acc \<Rightarrow> bool" where
  "placed u t moved cid listed a' =
     (\<exists>fid. map_of (newCollectionFolders a') (Num cid) = Some fid
        \<and> (listed \<longrightarrow> settled u t moved fid (browser a')))"

definition walked ::
  "string \<Rightarrow> string \<Rightarrow> bool \<Rightarrow> int \<Rightarrow> (int \<times> Raindrop) list \<Rightarrow> TreeNode list
     \<Rightarrow> sync_acc \<Rightarrow> sync_acc \<Rightarrow> bool" where
  "walked u t moved cid items ns a a' =
     (wf_store (browser a')
      \<and> fst ` set (newBookmarks a') = fst ` set (newBookmarks a) \<union> (\<lambda>i. link (snd i)) ` set items
      \<and> (filter (\<lambda>n. collectionIdOf n = cid) ns = [] \<longrightarrow> kept u cid a a')
      \<and> (\<forall>node. filter (\<lambda>n. collectionIdOf n = cid) ns = [node] \<longrightarrow> truthy (titleOf node) \<longrightarrow>
            placed u t moved cid (\<exists>i\<in>set items. link (snd i) = u) a'))"

section \<open>URL normalisation: the test suite\<close>

text \<open>
  C7. \<open>normalizeUrl\<close> is the composition trim, strip one trailing slash, escape
  backslashes, escape forward slashes, and on the five inputs of the test suite it
  yields the strings the suite expects: the padded URL with a trailing slash becomes
  \<open>http:\/\/example.com\/path\<close> (each \<open>\\<close> below is the character \<open>BS\<close>), and
  backslashes of the input are doubled.
\<close>

theorem normalizeUrl_contract:
  "normalizeUrl u = escapeChar CHR ''/'' (escapeChar BS (stripTrailingSlash (trim u)))
   \<and> normalizeUrl ''   http://example.com/path/   '' =
       ''http:'' @ [BS] @ ''/'' @ [BS] @ ''/example.com'' @ [BS] @ ''/path''
   \<and> normalizeUrl ''http://example.com/path/'' =
       ''http:'' @ [BS] @ ''/'' @ [BS] @ ''/example.com'' @ [BS] @ ''/path''
   \<and> normalizeUrl (''http://example.com'' @ [BS] @ ''path'' @ [BS] @ ''to'' @ [BS] @ ''resource'') =
       ''http:'' @ [BS] @ ''/'' @ [BS] @ ''/example.com'' @ [BS, BS] @ ''path'' @ [BS, BS] @ ''to''
         @ [BS, BS] @ ''resource''
   \<and> normalizeUrl ''http://example.com/path/to/resource'' =
       ''http:'' @ [BS] @ ''/'' @ [BS] @ ''/example.com'' @ [BS] @ ''/path'' @ [BS] @ ''/to''
         @ [BS] @ ''/resource''
   \<and> normalizeUrl (''   http://example.com/path/to/resource/with'' @ [BS] @ ''backslashes/   '') =
       ''http:'' @ [BS] @ ''/'' @ [BS] @ ''/example.com'' @ [BS] @ ''/path'' @ [BS] @ ''/to''
         @ [BS] @ ''/resource'' @ [BS] @ ''/with'' @ [BS, BS] @ ''backslashes''"
  by (simp add: normalizeUrl_def escapeChar_def stripTrailingSlash_def trim_def is_space_def
      BS_def)

section \<open>Numbers and their decimal strings\<close>

lemma of_char_digit_char: "d < 10 \<Longrightarrow> (of_char (digit_char d) :: int) = 48 + int d"
proof -
  assume d: "d < 10"
  have "(of_char (digit_char d) :: int) = int (of_char (digit_char d))"
    by (simp only: of_nat_of_char)
  also have "\<dots> = int ((48 + d) mod 256)"
    by (simp only: digit_char_def of_char_of)
  also have "\<dots> = 48 + int d" using d by simp
  finally show ?thesis .
qed

lemma hex_val_digit_char: "d < 10 \<Longrightarrow> hex_val (digit_char d) = Some (int d)"
  by (simp add: hex_val_def of_char_digit_char Let_def)

lemma digit_in_digit_char: "d < 10 \<Longrightarrow> digit_in 10 (digit_char d)"
  by (simp add: digit_in_def hex_val_digit_char)

lemma decimal_all_digits: "list_all (digit_in 10) (decimal n)"
proof (induction n rule: decimal.induct)
  case (1 n)
  show ?case
  proof (cases "n < 10")
    case True
    then show ?thesis by (subst decimal.simps) (simp add: digit_in_digit_char)
  next
    case False
    with 1 show ?thesis by (subst decimal.simps) (simp add: digit_in_digit_char)
  qed
qed

lemma decimal_not_Nil: "decimal n \<noteq> []"
  by (subst decimal.simps) simp

lemma digits_value_snoc:
  "digits_value r (ds @ [c]) = digits_value r ds * r + (case hex_val c of None \<Rightarrow> 0 | Some v \<Rightarrow> v)"
  by (simp add: digits_value_def)

lemma digits_value_decimal: "digits_value 10 (decimal n) = int n"
proof (induction n rule: decimal.induct)
  case (1 n)
  show ?case
  proof (cases "n < 10")
    case True
    then show ?thesis
      by (subst decimal.simps) (simp add: digits_value_def hex_val_digit_char)
  next
    case False
    have "digits_value 10 (decimal n) =
          digits_value 10 (decimal (n div 10)) * 10 + int (n mod 10)"
      using False by (subst decimal.simps) (simp add: digits_value_snoc hex_val_digit_char)
    also have "\<dots> = int (n div 10) * 10 + int (n mod 10)"
      using 1 False by simp
    also have "\<dots> = int n" by (simp add: zdiv_int zmod_int)
    finally show ?thesis .
  qed
qed

lemma decimal_inj: "decimal m = decimal n \<Longrightarrow> m = n"
  by (metis digits_value_decimal of_nat_eq_iff)

lemma not_digit_facts:
  "\<not> digit_in 10 CHR ''-''" "\<not> digit_in 10 CHR ''+''" "\<not> digit_in 10 CHR ''x''"
  "\<not> digit_in 10 CHR ''X''" "\<not> digit_in 10 CHR ''N''"
  by (simp_all add: digit_in_def hex_val_def)

lemma digit_not_space: "digit_in 10 c \<Longrightarrow> \<not> is_space c"
  by (auto simp: digit_in_def hex_val_def is_space_def Let_def split: if_splits)

lemma parseInt_digits:
  assumes "list_all (digit_in 10) ds" "ds \<noteq> []"
  shows "parseInt ds = Num (digits_value 10 ds)"
    and "parseInt (CHR ''-'' # ds) = Num (- digits_value 10 ds)"
proof -
  obtain c cs where ds: "ds = c # cs" using assms(2) by (cases ds) auto
  have c: "digit_in 10 c" and cs: "list_all (digit_in 10) cs" using assms(1) ds by auto
  have nsp: "dropWhile is_space ds = ds"
    using digit_not_space[OF c] ds by simp
  have sign: "take 1 ds \<noteq> ''-''" "take 1 ds \<noteq> ''+''"
    using c not_digit_facts ds by auto
  have nohex: "take 2 ds \<noteq> ''0x''" "take 2 ds \<noteq> ''0X''"
    using cs not_digit_facts ds by (cases cs; auto)+
  have tw: "takeWhile (digit_in 10) ds = ds"
    using assms(1) by (simp add: takeWhile_eq_all_conv list_all_iff)
  show "parseInt ds = Num (digits_value 10 ds)"
    unfolding parseInt_def Let_def nsp using sign nohex assms(2)
    by (simp add: tw del: take_Suc_Cons One_nat_def)
  have nsp': "dropWhile is_space (CHR ''-'' # ds) = CHR ''-'' # ds"
    by (simp add: is_space_def)
  have sign': "take 1 (CHR ''-'' # ds) = ''-''" "drop 1 (CHR ''-'' # ds) = ds"
    by simp_all
  show "parseInt (CHR ''-'' # ds) = Num (- digits_value 10 ds)"
    unfolding parseInt_def Let_def nsp' sign' using nohex assms(2)
    by (simp add: tw)
qed

lemma parseInt_number_to_string: "parseInt (number_to_string k) = k"
proof (cases k)
  case (Num i)
  then show ?thesis
    using parseInt_digits[OF decimal_all_digits decimal_not_Nil]
    by (simp add: digits_value_decimal)
next
  case NaN
  then show ?thesis
    using not_digit_facts(5) by (simp add: parseInt_def Let_def is_space_def)
qed

section \<open>The stored state read back\<close>

lemma update_fresh_key: "k \<notin> fst ` set m \<Longrightarrow> AList.update k v m = m @ [(k, v)]"
  by (induction m) auto

lemma fold_update_distinct:
  "distinct (map fst (m @ es)) \<Longrightarrow>
   fold (\<lambda>e m. AList.update (fst e) (snd e) m) es m = m @ es"
proof (induction es arbitrary: m)
  case Nil
  then show ?case by simp
next
  case (Cons e es)
  have fresh: "fst e \<notin> fst ` set m" using Cons.prems by auto
  have "distinct (map fst ((m @ [e]) @ es))" using Cons.prems by simp
  then have "fold (\<lambda>e m. AList.update (fst e) (snd e) m) es (m @ [e]) = (m @ [e]) @ es"
    by (rule Cons.IH)
  then show ?case using fresh by (simp add: update_fresh_key)
qed

lemma Map_of_entries_distinct: "distinct (map fst es) \<Longrightarrow> Map_of_entries es = es"
  using fold_update_distinct[of "[]" es] by (simp add: Map_of_entries_def)

lemma Object_fromEntries_distinct: "distinct (map fst es) \<Longrightarrow> Object_fromEntries es = es"
  using fold_update_distinct[of "[]" es] by (simp add: Object_fromEntries_def)

lemma set_Object_entries: "set (Object_entries ps) = set ps"
  by (auto simp: Object_entries_def)

lemma distinct_Object_entries:
  assumes "distinct (map fst ps)"
  shows "distinct (map fst (Object_entries ps))"
proof -
  have d: "distinct ps" and inj: "inj_on fst (set ps)"
    using assms by (simp_all add: distinct_map)
  have "distinct (Object_entries ps)"
    using d by (auto simp: Object_entries_def)
  moreover have "inj_on fst (set (Object_entries ps))"
    using inj by (simp add: set_Object_entries)
  ultimately show ?thesis by (simp add: distinct_map)
qed

lemma map_of_Object_entries:
  "distinct (map fst ps) \<Longrightarrow> map_of (Object_entries ps) = map_of ps"
  by (simp add: map_of_inject_set distinct_Object_entries set_Object_entries)

lemma number_to_string_inj: "number_to_string a = number_to_string b \<Longrightarrow> a = b"
  by (metis parseInt_number_to_string)

lemma distinct_number_keys:
  assumes "distinct (map fst fs)"
  shows "distinct (map fst (map (\<lambda>e. (number_to_string (fst e), snd e)) fs))"
proof -
  have "map fst (map (\<lambda>e. (number_to_string (fst e), snd e)) fs) = map number_to_string (map fst fs)"
    by simp
  moreover have "inj_on number_to_string (set (map fst fs))"
    by (rule inj_onI) (rule number_to_string_inj)
  ultimately show ?thesis
    using assms distinct_map[of number_to_string "map fst fs"] by presburger
qed

lemma parsed_keys_back:
  assumes "distinct (map fst fs)"
  shows "set (map (\<lambda>e. (parseInt (fst e), snd e))
            (Object_entries (map (\<lambda>e. (number_to_string (fst e), snd e)) fs))) = set fs"
    and "distinct (map fst (map (\<lambda>e. (parseInt (fst e), snd e))
            (Object_entries (map (\<lambda>e. (number_to_string (fst e), snd e)) fs))))"
proof -
  let ?ks = "map (\<lambda>e. (number_to_string (fst e), snd e)) fs"
  let ?parse = "\<lambda>e. (parseInt (fst e), snd e)"
  have "set (map ?parse (Object_entries ?ks)) = ?parse ` set ?ks"
    by (simp add: set_Object_entries)
  also have "\<dots> = set fs"
    by (force simp: parseInt_number_to_string image_iff)
  finally show "set (map ?parse (Object_entries ?ks)) = set fs" .
  have dk: "distinct (map fst (Object_entries ?ks))"
    by (rule distinct_Object_entries) (rule distinct_number_keys[OF assms])
  have keys: "set (map fst (Object_entries ?ks)) \<subseteq> range number_to_string"
    by (auto simp: set_Object_entries)
  have "inj_on parseInt (range number_to_string)"
    by (rule inj_onI) (auto simp: parseInt_number_to_string)
  then have "inj_on parseInt (set (map fst (Object_entries ?ks)))"
    using keys by (rule inj_on_subset)
  then have dp: "distinct (map parseInt (map fst (Object_entries ?ks)))"
    using dk distinct_map[of parseInt "map fst (Object_entries ?ks)"] by blast
  have eq: "map fst (map ?parse (Object_entries ?ks)) = map parseInt (map fst (Object_entries ?ks))"
    by simp
  show "distinct (map fst (map ?parse (Object_entries ?ks)))"
    unfolding eq by (fact dp)
qed

text \<open>
  C9. Saving a state and loading it again gives an equivalent state: the same bookmarks
  map, the same collectionFolders map (its number keys went through their decimal strings
  and \<open>parseInt\<close>), and the date that the ISO string of \<open>lastSync\<close> parses to. The
  state is a pair of maps, so its keys are distinct, and the collection ids are safe
  integers, where the decimal string is what JavaScript prints.
\<close>

theorem loadSyncState_saveSyncState:
  assumes "distinct (map fst (bookmarks s))" and "distinct (map fst (collectionFolders s))"
    and "list_all (\<lambda>e. js_safe_integer (fst e)) (collectionFolders s)"
  shows "\<exists>s'. loadSyncState rt (saveSyncState rt s w) = Some s'
           \<and> map_of (bookmarks s') = map_of (bookmarks s)
           \<and> distinct (map fst (bookmarks s'))
           \<and> map_of (collectionFolders s') = map_of (collectionFolders s)
           \<and> distinct (map fst (collectionFolders s'))
           \<and> lastSync s' = Date_parse rt (toISOString rt (lastSync s))"
proof -
  let ?ks = "map (\<lambda>e. (number_to_string (fst e), snd e)) (collectionFolders s)"
  let ?parse = "\<lambda>e. (parseInt (fst e), snd e)"
  let ?s' = "\<lparr>bookmarks = Object_entries (bookmarks s),
             collectionFolders = map ?parse (Object_entries ?ks),
             lastSync = Date_parse rt (toISOString rt (lastSync s))\<rparr>"
  have db: "distinct (map fst (Object_entries (bookmarks s)))"
    by (rule distinct_Object_entries[OF assms(1)])
  have dk: "distinct (map fst ?ks)" by (rule distinct_number_keys[OF assms(2)])
  have df: "distinct (map fst (map ?parse (Object_entries ?ks)))"
    by (rule parsed_keys_back(2)[OF assms(2)])
  have "loadSyncState rt (saveSyncState rt s w) = Some ?s'"
    by (simp add: loadSyncState_def saveSyncState_def Object_fromEntries_distinct[OF assms(1)]
        Object_fromEntries_distinct[OF dk] Map_of_entries_distinct[OF db]
        Map_of_entries_distinct[OF df])
  moreover have "map_of (bookmarks ?s') = map_of (bookmarks s)"
    by (simp add: map_of_Object_entries[OF assms(1)])
  moreover have "map_of (collectionFolders ?s') = map_of (collectionFolders s)"
    using df assms(2) parsed_keys_back(1)[OF assms(2)]
    by (simp add: map_of_inject_set)
  ultimately show ?thesis using db df by simp
qed

theorem loadSyncState_saveSyncState_witness:
  "\<exists>s'. loadSyncState demoRuntime (saveSyncState demoRuntime demoState freshWorld) = Some s'
      \<and> map_of (bookmarks s') = map_of (bookmarks demoState)
      \<and> distinct (map fst (bookmarks s'))
      \<and> map_of (collectionFolders s') = map_of (collectionFolders demoState)
      \<and> distinct (map fst (collectionFolders s'))
      \<and> lastSync s' = Date_parse demoRuntime (toISOString demoRuntime (lastSync demoState))"
  by (rule loadSyncState_saveSyncState) (simp_all add: demoState_def js_safe_integer_def)

section \<open>A run, step by step\<close>

lemma incrementalSync_unfold:
  "incrementalSync rt opts w =
      (case processCollectionForIncremental (getAllRaindrops opts) (previousBookmarksOf rt w)
              (baseFolder opts) (tree opts) (emptyAcc w) of
         (Inl e, a1) \<Rightarrow> (Inl e, w\<lparr>chrome := browser a1\<rparr>)
       | (Inr u, a1) \<Rightarrow>
           (case (if includeUnsorted opts \<noteq> Some False
                  then syncUnsortedCollection (getAllRaindrops opts) (previousBookmarksOf rt w)
                         (baseFolder opts) a1
                  else (Inr (), a1)) of
              (Inl e, a2) \<Rightarrow> (Inl e, w\<lparr>chrome := browser a2\<rparr>)
            | (Inr u2, a2) \<Rightarrow>
                (Inr (stats (deleteStale (node_id (baseFolder opts)) (previousBookmarksOf rt w) a2)),
                 saveSyncState rt
                   \<lparr>bookmarks = newBookmarks
                      (deleteStale (node_id (baseFolder opts)) (previousBookmarksOf rt w) a2),
                    collectionFolders = newCollectionFolders
                      (deleteStale (node_id (baseFolder opts)) (previousBookmarksOf rt w) a2),
                    lastSync = Date_now rt\<rparr>
                   (w\<lparr>chrome := browser
                      (deleteStale (node_id (baseFolder opts)) (previousBookmarksOf rt w) a2)\<rparr>))))"
  by (simp only: incrementalSync_def Let_def previousBookmarksOf_def emptyAcc_def)

lemma incrementalSync_success:
  assumes "incrementalSync rt opts w = (Inr st, w')"
  obtains a1 a2 a3 where
    "processCollectionForIncremental (getAllRaindrops opts) (previousBookmarksOf rt w)
       (baseFolder opts) (tree opts) (emptyAcc w) = (Inr (), a1)"
    "(if includeUnsorted opts \<noteq> Some False
      then syncUnsortedCollection (getAllRaindrops opts) (previousBookmarksOf rt w) (baseFolder opts) a1
      else (Inr (), a1)) = (Inr (), a2)"
    "a3 = deleteStale (node_id (baseFolder opts)) (previousBookmarksOf rt w) a2"
    "st = stats a3"
    "w' = saveSyncState rt
            \<lparr>bookmarks = newBookmarks a3, collectionFolders = newCollectionFolders a3,
             lastSync = Date_now rt\<rparr>
            (w\<lparr>chrome := browser a3\<rparr>)"
proof -
  obtain r1 a1 where walk:
    "processCollectionForIncremental (getAllRaindrops opts) (previousBookmarksOf rt w)
       (baseFolder opts) (tree opts) (emptyAcc w) = (r1, a1)"
    by fastforce
  obtain r2 a2 where unsorted:
    "(if includeUnsorted opts \<noteq> Some False
      then syncUnsortedCollection (getAllRaindrops opts) (previousBookmarksOf rt w) (baseFolder opts) a1
      else (Inr (), a1)) = (r2, a2)"
    by fastforce
  have r1: "r1 = Inr ()"
    using assms unfolding incrementalSync_unfold walk by (cases r1) simp_all
  have r2: "r2 = Inr ()"
    using assms unfolding incrementalSync_unfold walk r1 using unsorted by (cases r2) simp_all
  have "st = stats (deleteStale (node_id (baseFolder opts)) (previousBookmarksOf rt w) a2)"
    and "w' = saveSyncState rt
            \<lparr>bookmarks = newBookmarks
               (deleteStale (node_id (baseFolder opts)) (previousBookmarksOf rt w) a2),
             collectionFolders = newCollectionFolders
               (deleteStale (node_id (baseFolder opts)) (previousBookmarksOf rt w) a2),
             lastSync = Date_now rt\<rparr>
            (w\<lparr>chrome := browser
               (deleteStale (node_id (baseFolder opts)) (previousBookmarksOf rt w) a2)\<rparr>)"
    using assms unfolding incrementalSync_unfold walk r1 using unsorted r2 by simp_all
  then show ?thesis
    using that[OF walk[unfolded r1] unsorted[unfolded r2] refl] by blast
qed


text \<open>
  A run that throws in the middle of the walk: the fetch of the second collection fails
  after two folders were created, and the stored state is still the previous one.
\<close>

lemma failed_run_keeps_stored_state:
  "fst (incrementalSync demoRuntime failingSource syncedWorld) = Inl FetchError
   \<and> length (nodes (chrome (snd (incrementalSync demoRuntime failingSource syncedWorld)))) =
       length (nodes (chrome syncedWorld)) + 2
   \<and> storage_syncState (snd (incrementalSync demoRuntime failingSource syncedWorld)) =
       storage_syncState syncedWorld
   \<and> storage_writes (snd (incrementalSync demoRuntime failingSource syncedWorld)) = 0"
  by code_simp

section \<open>The update branch\<close>

lemma touched_id [simp]: "node_id (touched t moved fid n) = node_id n"
  by (simp add: touched_def)

lemma touched_idem [simp]: "touched t moved fid (touched t moved fid n) = touched t moved fid n"
  by (simp add: touched_def)

lemma touchAll_empty [simp]: "touchAll {} t moved fid c = c"
  by (simp add: touchAll_def)

lemma bookmarks_update_touch:
  "bookmarks_update i t c = Inr c1 \<Longrightarrow> c1 = touchAll {i} t False fid c"
  by (auto simp: bookmarks_update_def touchAll_def touched_def split: if_splits)

lemma bookmarks_move_after_update:
  "bookmarks_update i t c = Inr c1 \<Longrightarrow> bookmarks_move i fid c1 = Inr c2 \<Longrightarrow>
   c2 = touchAll {i} t True fid c"
  by (auto simp: bookmarks_update_def bookmarks_move_def touchAll_def touched_def
      split: if_splits)

lemma touchAll_touchAll:
  "touchAll S t moved fid (touchAll R t moved fid c) = touchAll (R \<union> S) t moved fid c"
  by (auto simp: touchAll_def)

lemma updateFound_touchAll:
  "updateFound t moved fid results c = (Inr (), c') \<Longrightarrow>
   c' = touchAll (node_id ` {bm \<in> set results. truthy (parentId bm)}) t moved fid c"
proof (induction results arbitrary: c)
  case Nil
  then show ?case by simp
next
  case (Cons bm results)
  let ?S = "node_id ` {b \<in> set results. truthy (parentId b)}"
  show ?case
  proof (cases "truthy (parentId bm)")
    case False
    then have "updateFound t moved fid results c = (Inr (), c')"
      using Cons.prems by simp
    then have "c' = touchAll ?S t moved fid c" by (rule Cons.IH)
    moreover have "node_id ` {b \<in> set (bm # results). truthy (parentId b)} = ?S"
      using False by auto
    ultimately show ?thesis by simp
  next
    case True
    then obtain c1 where upd: "bookmarks_update (node_id bm) t c = Inr c1"
      using Cons.prems by (auto split: sum.splits)
    have "\<exists>c2. c2 = touchAll {node_id bm} t moved fid c
            \<and> updateFound t moved fid results c2 = (Inr (), c')"
    proof (cases moved)
      case True
      then obtain c2 where mv: "bookmarks_move (node_id bm) fid c1 = Inr c2"
        and rest: "updateFound t moved fid results c2 = (Inr (), c')"
        using Cons.prems \<open>truthy (parentId bm)\<close> upd by (auto split: sum.splits)
      then show ?thesis using bookmarks_move_after_update[OF upd mv] True by simp
    next
      case False
      then have "updateFound t moved fid results c1 = (Inr (), c')"
        using Cons.prems \<open>truthy (parentId bm)\<close> upd by simp
      then show ?thesis using bookmarks_update_touch[OF upd, of fid] False
        by (simp add: touchAll_def touched_def)
    qed
    then obtain c2 where c2: "c2 = touchAll {node_id bm} t moved fid c"
      and rest: "updateFound t moved fid results c2 = (Inr (), c')" by blast
    have "c' = touchAll ?S t moved fid c2" using rest by (rule Cons.IH)
    then have "c' = touchAll ({node_id bm} \<union> ?S) t moved fid c"
      by (simp add: c2 touchAll_touchAll)
    moreover have "node_id ` {b \<in> set (bm # results). truthy (parentId b)} = {node_id bm} \<union> ?S"
      using True by auto
    ultimately show ?thesis by simp
  qed
qed

lemma retitleFound_touchAll:
  "retitleFound t results c = (Inr (), c') \<Longrightarrow>
   c' = touchAll (node_id ` set results) t False fid c"
proof (induction results arbitrary: c)
  case Nil
  then show ?case by simp
next
  case (Cons bm results)
  then obtain c1 where upd: "bookmarks_update (node_id bm) t c = Inr c1"
    and rest: "retitleFound t results c1 = (Inr (), c')"
    by (auto split: sum.splits)
  have "c' = touchAll (node_id ` set results) t False fid c1" using rest by (rule Cons.IH)
  then show ?case
    using bookmarks_update_touch[OF upd, of fid] by (simp add: touchAll_touchAll)
qed

text \<open>
  C8. In the update branch the engine retitles, and moves when the collection changed,
  every bookmark that the search by URL finds in the whole store and that has a parent,
  wherever it lives, and counts one update for the source item. The unsorted bucket
  retitles every bookmark the search finds and counts one update as well.
\<close>

theorem update_branch_touches_every_found_bookmark:
  assumes "map_of previousBookmarks (link rd) = Some previous"
  shows "(\<not> (title previous = rd_title rd \<and> collectionId previous = cid) \<longrightarrow>
          processRaindrop previousBookmarks folder cid rd a = (Inr (), a') \<longrightarrow>
            browser a' =
              touchAll (node_id ` {bm \<in> set (bookmarks_search (link rd) (browser a)).
                                    truthy (parentId bm)})
                (rd_title rd) (collectionId previous \<noteq> cid) (node_id folder) (browser a)
            \<and> stats a' = (stats a)\<lparr>updated := Suc (updated (stats a))\<rparr>)
       \<and> (map_of (newBookmarks a) (link rd) = None \<longrightarrow> title previous \<noteq> rd_title rd \<longrightarrow>
          processUnsortedRaindrop previousBookmarks unsortedFolder rd a = (Inr (), b') \<longrightarrow>
            browser b' =
              touchAll (node_id ` set (bookmarks_search (link rd) (browser a)))
                (rd_title rd) False [] (browser a)
            \<and> stats b' = (stats a)\<lparr>updated := Suc (updated (stats a))\<rparr>)"
  using assms
  by (auto simp: processRaindrop_def processUnsortedRaindrop_def Let_def count_updated_def
      dest: updateFound_touchAll retitleFound_touchAll[where fid="[]"] split: prod.splits sum.splits)

theorem update_branch_touches_every_found_bookmark_witness:
  "fst (processRaindrop [(''http://a.com/'', siteState 7)] managedFolder 1 renamedRaindrop staleAcc)
     = Inr ()
   \<and> has_folder ''2'' (chrome staleWorld)
   \<and> bookmarks_search ''http://a.com/'' (chrome staleWorld) =
       [bookmarkNode ''3'' ''2'' ''Mine'' ''http://a.com/'']
   \<and> browser (snd (processRaindrop [(''http://a.com/'', siteState 7)] managedFolder 1
                     renamedRaindrop staleAcc)) =
       touchAll {''3''} ''New'' True ''1'' (chrome staleWorld)
   \<and> bookmarks_search ''http://a.com/''
       (browser (snd (processRaindrop [(''http://a.com/'', siteState 7)] managedFolder 1
                        renamedRaindrop staleAcc))) =
       [bookmarkNode ''3'' ''1'' ''New'' ''http://a.com/'']
   \<and> updated (stats (snd (processRaindrop [(''http://a.com/'', siteState 7)] managedFolder 1
                            renamedRaindrop staleAcc))) = 1"
proof -
  let ?prev = "[(''http://a.com/'', siteState 7)]"
  let ?r = "processRaindrop ?prev managedFolder 1 renamedRaindrop staleAcc"
  have known: "map_of ?prev (link renamedRaindrop) = Some (siteState 7)"
    by code_simp
  have changed: "\<not> (title (siteState 7) = rd_title renamedRaindrop \<and> collectionId (siteState 7) = 1)"
    by code_simp
  have returned: "fst ?r = Inr ()"
    by code_simp
  then have run: "?r = (Inr (), snd ?r)"
    by (simp add: prod_eq_iff)
  have found: "node_id ` {bm \<in> set (bookmarks_search (link renamedRaindrop) (chrome staleWorld)).
                          truthy (parentId bm)} = {''3''}"
    by code_simp
  have params: "rd_title renamedRaindrop = ''New''" "node_id managedFolder = ''1''"
    "(collectionId (siteState 7) \<noteq> 1) = True" "browser staleAcc = chrome staleWorld"
    "updated (stats staleAcc) = 0"
    by code_simp+
  have "browser (snd ?r) = touchAll {''3''} ''New'' True ''1'' (chrome staleWorld)
        \<and> stats (snd ?r) = (stats staleAcc)\<lparr>updated := Suc (updated (stats staleAcc))\<rparr>"
    using update_branch_touches_every_found_bookmark[OF known, of 1 managedFolder staleAcc "snd ?r",
        THEN conjunct1, rule_format, OF changed run]
    unfolding params found by simp
  moreover have "has_folder ''2'' (chrome staleWorld)"
    by code_simp
  moreover have "bookmarks_search ''http://a.com/'' (chrome staleWorld) =
       [bookmarkNode ''3'' ''2'' ''Mine'' ''http://a.com/'']"
    by code_simp
  moreover have "bookmarks_search ''http://a.com/'' (browser (snd ?r)) =
       [bookmarkNode ''3'' ''1'' ''New'' ''http://a.com/'']"
    by code_simp
  ultimately show ?thesis
    using returned params(5) by simp
qed

section \<open>The first run\<close>

lemma bookmarks_create_grows:
  "bookmarks_create pid t u c = Inr (n, c') \<Longrightarrow>
   nodes c' = nodes c @ [n] \<and> node_id n = decimal (nextId c) \<and> nextId c' = Suc (nextId c)
   \<and> node_url n = (if truthy u then u else None) \<and> parentId n = Some pid \<and> node_title n = t"
  by (auto simp: bookmarks_create_def Let_def split: if_splits)

lemma has_folder_append: "has_folder i c \<Longrightarrow> nodes c' = nodes c @ ns \<Longrightarrow> has_folder i c'"
  by (auto simp: has_folder_def list_ex_iff)

lemma created_folder_exists:
  "bookmarks_create pid t None c = Inr (n, c') \<Longrightarrow> has_folder (node_id n) c'"
  by (auto simp: bookmarks_create_def has_folder_def is_folder_def truthy_def Let_def list_ex_iff
      split: if_splits)

lemma getFolderById_id: "getFolderById i c = Inr folder \<Longrightarrow> node_id folder = i"
  by (auto simp: getFolderById_def findFolderById_def bookmarks_getSubTree_def
      split: sum.splits option.splits list.splits dest: find_Some_iff[THEN iffD1])

lemma values_update: "snd ` set (AList.update k v m) \<subseteq> insert v (snd ` set m)"
  by (induction m) auto

lemma values_update_all:
  "\<forall>v\<in>snd ` set m. P v \<Longrightarrow> P v0 \<Longrightarrow> \<forall>v\<in>snd ` set (AList.update k v0 m). P v"
  using values_update[of k v0 m] by blast

lemma keys_update: "fst ` set (AList.update k v m) = insert k (fst ` set m)"
  by (simp add: dom_update)

lemma map_of_None_keys: "map_of m k = None \<longleftrightarrow> k \<notin> fst ` set m"
  by (simp add: map_of_eq_None_iff)

lemma first_processRaindrop:
  assumes "processRaindrop [] folder cid rd a = (Inr (), a')"
  shows "stats a' = (stats a)\<lparr>added := Suc (added (stats a))\<rparr>"
    and "\<exists>n. nodes (browser a') = nodes (browser a) @ [n]"
    and "newCollectionFolders a' = newCollectionFolders a"
    and "fst ` set (newBookmarks a') = insert (link rd) (fst ` set (newBookmarks a))"
proof -
  from assms obtain n c where
    made: "bookmarks_create (node_id folder) (rd_title rd) (Some (link rd)) (browser a) = Inr (n, c)"
    and a': "a' = count_added
               (a\<lparr>newBookmarks :=
                    AList.update (link rd) (bookmarkStateOf cid rd) (newBookmarks a),
                  browser := c\<rparr>)"
    by (auto simp: processRaindrop_def Let_def split: sum.splits)
  show "stats a' = (stats a)\<lparr>added := Suc (added (stats a))\<rparr>"
    by (simp add: a' count_added_def)
  show "\<exists>n. nodes (browser a') = nodes (browser a) @ [n]"
    using bookmarks_create_grows[OF made] by (simp add: a' count_added_def)
  show "newCollectionFolders a' = newCollectionFolders a"
    by (simp add: a' count_added_def)
  show "fst ` set (newBookmarks a') = insert (link rd) (fst ` set (newBookmarks a))"
    by (simp add: a' count_added_def keys_update)
qed

lemma first_processRaindrops:
  "processRaindrops [] folder cid raindrops a = (Inr (), a') \<Longrightarrow>
   stats a' = (stats a)\<lparr>added := added (stats a) + length raindrops\<rparr>
   \<and> (\<exists>ns. nodes (browser a') = nodes (browser a) @ ns)
   \<and> newCollectionFolders a' = newCollectionFolders a
   \<and> fst ` set (newBookmarks a') = fst ` set (newBookmarks a) \<union> link ` set raindrops"
proof (induction raindrops arbitrary: a)
  case Nil
  then show ?case by simp
next
  case (Cons rd raindrops)
  from Cons.prems obtain a1 where one: "processRaindrop [] folder cid rd a = (Inr (), a1)"
    and rest: "processRaindrops [] folder cid raindrops a1 = (Inr (), a')"
    by (auto split: prod.splits sum.splits)
  note h = first_processRaindrop[OF one] Cons.IH[OF rest]
  show ?case
  proof (intro conjI)
    show "stats a' = (stats a)\<lparr>added := added (stats a) + length (rd # raindrops)\<rparr>"
      using h by simp
    show "\<exists>ns. nodes (browser a') = nodes (browser a) @ ns"
      using h by auto
    show "newCollectionFolders a' = newCollectionFolders a"
      using h by simp
    show "fst ` set (newBookmarks a') = fst ` set (newBookmarks a) \<union> link ` set (rd # raindrops)"
      using h by auto
  qed
qed


lemma resolveCollectionFolder_cases:
  assumes "resolveCollectionFolder parentFolder t a = (Inr folder, a')"
  obtains
    (untitled) "\<not> truthy (titleOf t)" "folder = parentFolder" "a' = a"
  | (fetched) i where "truthy (titleOf t)"
      "map_of (newCollectionFolders a) (Num (collectionIdOf t)) = Some i"
      "getFolderById i (browser a) = Inr folder"
      "a' = a\<lparr>newCollectionFolders :=
                AList.update (Num (collectionIdOf t)) (node_id folder) (newCollectionFolders a)\<rparr>"
  | (created) c where "truthy (titleOf t)"
      "bookmarks_create (node_id parentFolder) (collectionTitleOf t) None (browser a) = Inr (folder, c)"
      "a' = a\<lparr>browser := c,
              newCollectionFolders :=
                AList.update (Num (collectionIdOf t)) (node_id folder) (newCollectionFolders a)\<rparr>"
  using assms
  by (auto simp: resolveCollectionFolder_def Let_def
      split: if_splits option.splits sum.splits prod.splits)

lemma resolveCollectionFolder_first:
  assumes "resolveCollectionFolder parentFolder t a = (Inr folder, a')"
  shows "stats a' = stats a" and "newBookmarks a' = newBookmarks a"
    and "\<exists>ns. nodes (browser a') = nodes (browser a) @ ns"
    and "(\<forall>v\<in>snd ` set (newCollectionFolders a). has_folder v (browser a)) \<Longrightarrow>
         (\<forall>v\<in>snd ` set (newCollectionFolders a'). has_folder v (browser a'))"
proof -
  show "stats a' = stats a"
    using assms by (cases rule: resolveCollectionFolder_cases) simp_all
  show "newBookmarks a' = newBookmarks a"
    using assms by (cases rule: resolveCollectionFolder_cases) simp_all
  show "\<exists>ns. nodes (browser a') = nodes (browser a) @ ns"
    using assms
    by (cases rule: resolveCollectionFolder_cases) (auto dest: bookmarks_create_grows)
  assume inv: "\<forall>v\<in>snd ` set (newCollectionFolders a). has_folder v (browser a)"
  from assms show "\<forall>v\<in>snd ` set (newCollectionFolders a'). has_folder v (browser a')"
  proof (cases rule: resolveCollectionFolder_cases)
    case untitled
    then show ?thesis using inv by simp
  next
    case (fetched i)
    have "node_id folder = i" using fetched(3) by (rule getFolderById_id)
    moreover have "i \<in> snd ` set (newCollectionFolders a)"
      using fetched(2) by (force dest: map_of_SomeD)
    ultimately have "has_folder (node_id folder) (browser a)" using inv by blast
    then show ?thesis
      unfolding fetched(4) using inv by (simp del: Set.ball_simps) (rule values_update_all)
  next
    case (created c)
    have new: "has_folder (node_id folder) c"
      using created(2) by (rule created_folder_exists)
    have old: "\<And>v. has_folder v (browser a) \<Longrightarrow> has_folder v c"
      using bookmarks_create_grows[OF created(2)] by (auto intro: has_folder_append)
    have "\<forall>v\<in>snd ` set (newCollectionFolders a). has_folder v c"
      using inv old by blast
    then show ?thesis
      unfolding created(3) using new by (simp del: Set.ball_simps) (rule values_update_all)
  qed
qed

lemma walk_success_induct:
  assumes node: "\<And>client prev parentFolder d cs a folder a1 raindrops a2 a'.
      resolveCollectionFolder parentFolder (TreeNode d cs) a = (Inr folder, a1) \<Longrightarrow>
      client (collectionIdOf (TreeNode d cs)) = Some raindrops \<Longrightarrow>
      processRaindrops prev folder (collectionIdOf (TreeNode d cs)) raindrops a1 = (Inr (), a2) \<Longrightarrow>
      processChildren client prev folder cs a2 = (Inr (), a') \<Longrightarrow>
      Q client prev folder cs a2 a' \<Longrightarrow> P client prev parentFolder (TreeNode d cs) a a'"
    and none: "\<And>client prev folder a. Q client prev folder [] a a"
    and more: "\<And>client prev folder child cs a a1 a'.
      processCollectionForIncremental client prev folder child a = (Inr (), a1) \<Longrightarrow>
      P client prev folder child a a1 \<Longrightarrow>
      processChildren client prev folder cs a1 = (Inr (), a') \<Longrightarrow>
      Q client prev folder cs a1 a' \<Longrightarrow> Q client prev folder (child # cs) a a'"
  shows "(processCollectionForIncremental client prev parentFolder t a = (Inr (), a') \<longrightarrow>
           P client prev parentFolder t a a')
       \<and> (processChildren client prev parentFolder ts a = (Inr (), b') \<longrightarrow>
           Q client prev parentFolder ts a b')"
proof -
  have main1: "\<forall>a'. processCollectionForIncremental client prev parentFolder t a = (Inr (), a') \<longrightarrow>
           P client prev parentFolder t a a'"
    and main2: "\<forall>a'. processChildren client prev parentFolder ts a = (Inr (), a') \<longrightarrow>
           Q client prev parentFolder ts a a'"
  proof (induction client prev parentFolder t a and client prev parentFolder ts a
      rule: processCollectionForIncremental_processChildren.induct)
    case (1 client prev parentFolder d cs a)
    show ?case
    proof (intro allI impI)
      fix a'
      assume "processCollectionForIncremental client prev parentFolder (TreeNode d cs) a = (Inr (), a')"
      then obtain folder a1 raindrops a2 where
        res: "resolveCollectionFolder parentFolder (TreeNode d cs) a = (Inr folder, a1)"
        and fetch: "client (collectionIdOf (TreeNode d cs)) = Some raindrops"
        and items: "processRaindrops prev folder (collectionIdOf (TreeNode d cs)) raindrops a1
                      = (Inr (), a2)"
        and kids: "processChildren client prev folder cs a2 = (Inr (), a')"
        by (auto split: prod.splits sum.splits option.splits)
      have "\<forall>a'. processChildren client prev folder cs a2 = (Inr (), a') \<longrightarrow>
              Q client prev folder cs a2 a'"
        by (rule "1.IH"[OF res[symmetric] refl fetch items[symmetric] refl])
      then have "Q client prev folder cs a2 a'"
        using kids by blast
      then show "P client prev parentFolder (TreeNode d cs) a a'"
        by (rule node[OF res fetch items kids])
    qed
  next
    case (2 client prev folder a)
    show ?case by (simp add: none)
  next
    case (3 client prev folder child cs a)
    show ?case
    proof (intro allI impI)
      fix a'
      assume "processChildren client prev folder (child # cs) a = (Inr (), a')"
      then obtain a1 where
        one: "processCollectionForIncremental client prev folder child a = (Inr (), a1)"
        and rest: "processChildren client prev folder cs a1 = (Inr (), a')"
        by (auto split: prod.splits sum.splits)
      have p1: "P client prev folder child a a1"
        using "3.IH"(1) one by blast
      have "\<forall>a'. processChildren client prev folder cs a1 = (Inr (), a') \<longrightarrow>
              Q client prev folder cs a1 a'"
        by (rule "3.IH"(2)[OF one[symmetric] refl])
      then have q: "Q client prev folder cs a1 a'"
        using rest by blast
      show "Q client prev folder (child # cs) a a'"
        by (rule more[OF one p1 rest q])
    qed
  qed
  show ?thesis using main1 main2 by blast
qed

lemma grewBy_refl: "grewBy 0 {} a a"
  by (simp add: grewBy_def)

lemma grewBy_trans:
  assumes "grewBy k ls a a1" and "grewBy m ms a1 a2"
  shows "grewBy (k + m) (ls \<union> ms) a a2"
proof -
  have "stats a2 = (stats a)\<lparr>added := added (stats a) + (k + m)\<rparr>"
    using assms by (simp add: grewBy_def)
  moreover have "\<exists>ns. nodes (browser a2) = nodes (browser a) @ ns"
    using assms by (auto simp: grewBy_def)
  moreover have "fst ` set (newBookmarks a2) = fst ` set (newBookmarks a) \<union> (ls \<union> ms)"
    using assms by (auto simp: grewBy_def)
  moreover have "(\<forall>v\<in>snd ` set (newCollectionFolders a). has_folder v (browser a)) \<longrightarrow>
          (\<forall>v\<in>snd ` set (newCollectionFolders a2). has_folder v (browser a2))"
    using assms unfolding grewBy_def by blast
  ultimately show ?thesis unfolding grewBy_def by blast
qed

lemma grewBy_resolve:
  assumes "resolveCollectionFolder parentFolder t a = (Inr folder, a')"
  shows "grewBy 0 {} a a'"
  using resolveCollectionFolder_first[OF assms] unfolding grewBy_def by simp

lemma grewBy_items:
  assumes "processRaindrops [] folder cid raindrops a = (Inr (), a')"
  shows "grewBy (length raindrops) (link ` set raindrops) a a'"
proof -
  note h = first_processRaindrops[OF assms]
  have "(\<forall>v\<in>snd ` set (newCollectionFolders a). has_folder v (browser a)) \<longrightarrow>
          (\<forall>v\<in>snd ` set (newCollectionFolders a'). has_folder v (browser a'))"
    using h by (auto intro: has_folder_append)
  then show ?thesis using h unfolding grewBy_def by blast
qed

lemma first_walk:
  "(processCollectionForIncremental client prev parentFolder t a = (Inr (), a') \<longrightarrow> prev = [] \<longrightarrow>
     grewBy (length (walkItems client t)) ((\<lambda>i. link (snd i)) ` set (walkItems client t)) a a')
   \<and> (processChildren client prev parentFolder ts a = (Inr (), b') \<longrightarrow> prev = [] \<longrightarrow>
     grewBy (length (walkItemsOfAll client ts)) ((\<lambda>i. link (snd i)) ` set (walkItemsOfAll client ts)) a b')"
proof (rule walk_success_induct)
  fix client :: "int \<Rightarrow> Raindrop list option" and prev parentFolder d cs a folder a1 raindrops a2 a'
  assume res: "resolveCollectionFolder parentFolder (TreeNode d cs) a = (Inr folder, a1)"
    and fetch: "client (collectionIdOf (TreeNode d cs)) = Some raindrops"
    and items: "processRaindrops prev folder (collectionIdOf (TreeNode d cs)) raindrops a1 = (Inr (), a2)"
    and kids: "prev = [] \<longrightarrow> grewBy (length (walkItemsOfAll client cs))
               ((\<lambda>i. link (snd i)) ` set (walkItemsOfAll client cs)) a2 a'"
  show "prev = [] \<longrightarrow> grewBy (length (walkItems client (TreeNode d cs)))
            ((\<lambda>i. link (snd i)) ` set (walkItems client (TreeNode d cs))) a a'"
  proof
    assume e: "prev = []"
    have 1: "grewBy 0 {} a a1" using res by (rule grewBy_resolve)
    have 2: "grewBy (length raindrops) (link ` set raindrops) a1 a2"
      using items unfolding e by (rule grewBy_items)
    have 3: "grewBy (length (walkItemsOfAll client cs))
               ((\<lambda>i. link (snd i)) ` set (walkItemsOfAll client cs)) a2 a'"
      using kids e by simp
    have "grewBy (0 + length raindrops + length (walkItemsOfAll client cs))
            ({} \<union> link ` set raindrops \<union> (\<lambda>i. link (snd i)) ` set (walkItemsOfAll client cs)) a a'"
      by (rule grewBy_trans[OF grewBy_trans[OF 1 2] 3])
    then show "grewBy (length (walkItems client (TreeNode d cs)))
            ((\<lambda>i. link (snd i)) ` set (walkItems client (TreeNode d cs))) a a'"
      using fetch by (simp add: image_Un image_image)
  qed
next
  fix client :: "int \<Rightarrow> Raindrop list option" and prev :: "(string \<times> BookmarkState) list"
    and folder :: BookmarkTreeNode and a
  show "prev = [] \<longrightarrow> grewBy (length (walkItemsOfAll client []))
          ((\<lambda>i. link (snd i)) ` set (walkItemsOfAll client [])) a a"
    by (simp add: grewBy_refl)
next
  fix client :: "int \<Rightarrow> Raindrop list option" and prev :: "(string \<times> BookmarkState) list"
    and folder :: BookmarkTreeNode and child cs a a1 a'
  assume one: "prev = [] \<longrightarrow> grewBy (length (walkItems client child))
            ((\<lambda>i. link (snd i)) ` set (walkItems client child)) a a1"
    and rest: "prev = [] \<longrightarrow> grewBy (length (walkItemsOfAll client cs))
            ((\<lambda>i. link (snd i)) ` set (walkItemsOfAll client cs)) a1 a'"
  show "prev = [] \<longrightarrow> grewBy (length (walkItemsOfAll client (child # cs)))
            ((\<lambda>i. link (snd i)) ` set (walkItemsOfAll client (child # cs))) a a'"
  proof
    assume e: "prev = []"
    have "grewBy (length (walkItems client child) + length (walkItemsOfAll client cs))
            ((\<lambda>i. link (snd i)) ` set (walkItems client child)
             \<union> (\<lambda>i. link (snd i)) ` set (walkItemsOfAll client cs)) a a'"
      using one rest e by (auto intro: grewBy_trans)
    then show "grewBy (length (walkItemsOfAll client (child # cs)))
            ((\<lambda>i. link (snd i)) ` set (walkItemsOfAll client (child # cs))) a a'"
      by (simp add: image_Un)
  qed
qed

lemma resolveUnsortedFolder_cases:
  assumes "resolveUnsortedFolder base a = (Inr folder, a')"
  obtains
    (fetched) i where "map_of (newCollectionFolders a) (Num UNSORTED_ID) = Some i"
      "getFolderById i (browser a) = Inr folder" "a' = a"
  | (created) c where
      "bookmarks_create (node_id base) UNSORTED_TITLE None (browser a) = Inr (folder, c)"
      "a' = a\<lparr>browser := c\<rparr>"
  | (named) cs where "bookmarks_getChildren (node_id base) (browser a) = Inr cs"
      "find (\<lambda>c. node_title c = UNSORTED_TITLE \<and> \<not> truthy (node_url c)) cs = Some folder"
      "a' = a"
proof -
  define created where
    "created = bookmarks_create (node_id base) UNSORTED_TITLE None (browser a)"
  define byName where
    "byName = (case bookmarks_getChildren (node_id base) (browser a) of
               Inl e \<Rightarrow> Inl e
             | Inr cs \<Rightarrow>
                 (case find (\<lambda>c. node_title c = UNSORTED_TITLE \<and> \<not> truthy (node_url c)) cs of
                    Some existing \<Rightarrow> Inr (existing, browser a)
                  | None \<Rightarrow> created))"
  define found where
    "found = (case map_of (newCollectionFolders a) (Num UNSORTED_ID) of
               None \<Rightarrow> byName
             | Some i \<Rightarrow>
                 if i \<noteq> [] then
                   (case getFolderById i (browser a) of
                      Inl e \<Rightarrow> created
                    | Inr folder \<Rightarrow> Inr (folder, browser a))
                 else byName)"
  have res: "resolveUnsortedFolder base a =
      (case found of Inl e \<Rightarrow> (Inl e, a) | Inr (folder, c) \<Rightarrow> (Inr folder, a\<lparr>browser := c\<rparr>))"
    by (simp only: resolveUnsortedFolder_def Let_def found_def byName_def created_def)
  obtain c where found: "found = Inr (folder, c)" and a': "a' = a\<lparr>browser := c\<rparr>"
    using assms unfolding res by (auto split: sum.splits prod.splits)
  have same: "a\<lparr>browser := browser a\<rparr> = a" by simp
  have from_created: thesis if "created = Inr (folder, c)"
    using that a' created(1)[of c] by (simp add: created_def)
  have from_byName: thesis if "byName = Inr (folder, c)"
  proof (cases "bookmarks_getChildren (node_id base) (browser a)")
    case (Inl e)
    then show ?thesis using that by (simp add: byName_def)
  next
    case (Inr cs)
    show ?thesis
    proof (cases "find (\<lambda>c. node_title c = UNSORTED_TITLE \<and> \<not> truthy (node_url c)) cs")
      case None
      then have "created = Inr (folder, c)" using that Inr by (simp add: byName_def)
      then show ?thesis by (rule from_created)
    next
      case (Some existing)
      then have "existing = folder" "c = browser a" using that Inr by (simp_all add: byName_def)
      then show ?thesis using named[OF Inr] Some a' same by simp
    qed
  qed
  show ?thesis
  proof (cases "map_of (newCollectionFolders a) (Num UNSORTED_ID)")
    case None
    then have "byName = Inr (folder, c)" using found by (simp add: found_def)
    then show ?thesis by (rule from_byName)
  next
    case (Some i)
    show ?thesis
    proof (cases "i \<noteq> []")
      case False
      then have "byName = Inr (folder, c)" using found Some by (simp add: found_def)
      then show ?thesis by (rule from_byName)
    next
      case True
      show ?thesis
      proof (cases "getFolderById i (browser a)")
        case (Inl e)
        then have "created = Inr (folder, c)" using found Some True by (simp add: found_def)
        then show ?thesis by (rule from_created)
      next
        case (Inr f)
        then have "f = folder" "c = browser a" using found Some True by (simp_all add: found_def)
        then show ?thesis using fetched[OF Some] Inr a' same by simp
      qed
    qed
  qed
qed

lemma named_folder_exists:
  assumes "bookmarks_getChildren i c = Inr cs"
    and "find (\<lambda>c. node_title c = t \<and> \<not> truthy (node_url c)) cs = Some folder"
  shows "has_folder (node_id folder) c"
proof -
  have "folder \<in> set cs" and "\<not> truthy (node_url folder)"
    using assms(2) by (auto simp: find_Some_iff)
  moreover have "set cs \<subseteq> set (nodes c)"
    using assms(1) by (auto simp: bookmarks_getChildren_def split: if_splits)
  ultimately show ?thesis
    by (auto simp: has_folder_def is_folder_def list_ex_iff)
qed

lemma resolveUnsortedFolder_first:
  assumes "resolveUnsortedFolder base a = (Inr folder, a')"
    and "\<forall>v\<in>snd ` set (newCollectionFolders a). has_folder v (browser a)"
  shows "stats a' = stats a" and "newBookmarks a' = newBookmarks a"
    and "\<exists>ns. nodes (browser a') = nodes (browser a) @ ns"
    and "has_folder (node_id folder) (browser a')"
proof -
  show "stats a' = stats a"
    using assms(1) by (cases rule: resolveUnsortedFolder_cases) simp_all
  show "newBookmarks a' = newBookmarks a"
    using assms(1) by (cases rule: resolveUnsortedFolder_cases) simp_all
  show "\<exists>ns. nodes (browser a') = nodes (browser a) @ ns"
    using assms(1)
    by (cases rule: resolveUnsortedFolder_cases) (auto dest: bookmarks_create_grows)
  from assms(1) show "has_folder (node_id folder) (browser a')"
  proof (cases rule: resolveUnsortedFolder_cases)
    case (fetched i)
    have "node_id folder = i" using fetched(2) by (rule getFolderById_id)
    moreover have "i \<in> snd ` set (newCollectionFolders a)"
      using fetched(1) by (force dest: map_of_SomeD)
    ultimately show ?thesis using assms(2) fetched(3) by blast
  next
    case (created c)
    then show ?thesis by (simp add: created_folder_exists)
  next
    case (named cs)
    then show ?thesis by (simp add: named_folder_exists)
  qed
qed

lemma first_processUnsortedRaindrops:
  assumes "has_folder (node_id folder) (browser a)"
    and "set seen = fst ` set (newBookmarks a)"
  shows "\<exists>a'. processUnsortedRaindrops [] folder raindrops a = (Inr (), a')
           \<and> stats a' = (stats a)\<lparr>added := added (stats a) + length (unsortedFresh seen raindrops)\<rparr>
           \<and> (\<exists>ns. nodes (browser a') = nodes (browser a) @ ns)"
  using assms
proof (induction raindrops arbitrary: a seen)
  case Nil
  then show ?case by simp
next
  case (Cons rd raindrops)
  show ?case
  proof (cases "link rd \<in> set seen")
    case True
    then have skip: "processUnsortedRaindrop [] folder rd a = (Inr (), a)"
      using Cons.prems(2) by (simp add: processUnsortedRaindrop_def map_of_None_keys)
    obtain a' where "processUnsortedRaindrops [] folder raindrops a = (Inr (), a')"
      and "stats a' = (stats a)\<lparr>added := added (stats a) + length (unsortedFresh seen raindrops)\<rparr>"
      and "\<exists>ns. nodes (browser a') = nodes (browser a) @ ns"
      using Cons.IH[OF Cons.prems] by blast
    then show ?thesis using skip True by simp
  next
    case False
    then have fresh: "map_of (newBookmarks a) (link rd) = None"
      using Cons.prems(2) by (simp add: map_of_None_keys)
    obtain n c where made:
      "bookmarks_create (node_id folder) (rd_title rd) (Some (link rd)) (browser a) = Inr (n, c)"
      using Cons.prems(1) by (simp add: bookmarks_create_def Let_def)
    let ?a1 = "count_added
        (a\<lparr>newBookmarks :=
             AList.update (link rd) (bookmarkStateOf UNSORTED_ID rd) (newBookmarks a),
           browser := c\<rparr>)"
    have one: "processUnsortedRaindrop [] folder rd a = (Inr (), ?a1)"
      using fresh made by (simp add: processUnsortedRaindrop_def Let_def)
    have grown: "nodes (browser ?a1) = nodes (browser a) @ [n]"
      using bookmarks_create_grows[OF made] by (simp add: count_added_def)
    have f1: "has_folder (node_id folder) (browser ?a1)"
      using Cons.prems(1) grown by (rule has_folder_append)
    have s1: "set (link rd # seen) = fst ` set (newBookmarks ?a1)"
      using Cons.prems(2) by (simp add: count_added_def keys_update)
    obtain a' where rest: "processUnsortedRaindrops [] folder raindrops ?a1 = (Inr (), a')"
      and st: "stats a' = (stats ?a1)\<lparr>added := added (stats ?a1)
                  + length (unsortedFresh (link rd # seen) raindrops)\<rparr>"
      and gr: "\<exists>ns. nodes (browser a') = nodes (browser ?a1) @ ns"
      using Cons.IH[OF f1 s1] by blast
    have "processUnsortedRaindrops [] folder (rd # raindrops) a = (Inr (), a')"
      using one rest by simp
    moreover have "stats a' = (stats a)\<lparr>added := added (stats a)
                  + length (unsortedFresh seen (rd # raindrops))\<rparr>"
      using st False by (simp add: count_added_def)
    moreover have "\<exists>ns. nodes (browser a') = nodes (browser a) @ ns"
      using gr grown by auto
    ultimately show ?thesis by blast
  qed
qed

lemma first_syncUnsortedCollection:
  assumes "syncUnsortedCollection client [] base a = (Inr (), a')"
    and "\<forall>v\<in>snd ` set (newCollectionFolders a). has_folder v (browser a)"
    and "set seen = fst ` set (newBookmarks a)"
  shows "stats a' = (stats a)\<lparr>added := added (stats a)
            + length (case client UNSORTED_ID of None \<Rightarrow> []
                      | Some raindrops \<Rightarrow> unsortedFresh seen raindrops)\<rparr>"
    and "\<exists>ns. nodes (browser a') = nodes (browser a) @ ns"
proof -
  from assms(1) obtain folder a1 where
    res: "resolveUnsortedFolder base a = (Inr folder, a1)"
    by (auto simp: syncUnsortedCollection_def split: prod.splits sum.splits)
  note r = resolveUnsortedFolder_first[OF res assms(2)]
  let ?a2 = "a1\<lparr>newCollectionFolders :=
               AList.update (Num UNSORTED_ID) (node_id folder) (newCollectionFolders a1)\<rparr>"
  have a': "a' = (case client UNSORTED_ID of None \<Rightarrow> ?a2
                  | Some raindrops \<Rightarrow> snd (processUnsortedRaindrops [] folder raindrops ?a2))"
    using assms(1) res by (simp add: syncUnsortedCollection_def Let_def split: option.splits)
  have f2: "has_folder (node_id folder) (browser ?a2)" using r(4) by simp
  have s2: "set seen = fst ` set (newBookmarks ?a2)" using assms(3) r(2) by simp
  have "stats a' = (stats a)\<lparr>added := added (stats a)
            + length (case client UNSORTED_ID of None \<Rightarrow> []
                      | Some raindrops \<Rightarrow> unsortedFresh seen raindrops)\<rparr>
        \<and> (\<exists>ns. nodes (browser a') = nodes (browser a) @ ns)"
  proof (cases "client UNSORTED_ID")
    case None
    then show ?thesis using a' r by simp
  next
    case (Some raindrops)
    obtain b where "processUnsortedRaindrops [] folder raindrops ?a2 = (Inr (), b)"
      and "stats b = (stats ?a2)\<lparr>added := added (stats ?a2) + length (unsortedFresh seen raindrops)\<rparr>"
      and "\<exists>ns. nodes (browser b) = nodes (browser ?a2) @ ns"
      using first_processUnsortedRaindrops[OF f2 s2] by blast
    then show ?thesis using a' Some r by auto
  qed
  then show "stats a' = (stats a)\<lparr>added := added (stats a)
            + length (case client UNSORTED_ID of None \<Rightarrow> []
                      | Some raindrops \<Rightarrow> unsortedFresh seen raindrops)\<rparr>"
    and "\<exists>ns. nodes (browser a') = nodes (browser a) @ ns"
    by blast+
qed

text \<open>
  C10, amended. When no state was ever stored, a run that returns has taken the create
  branch for every item the main walk fetched and for every raindrop of the unsorted
  listing that was not skipped (one whose URL the new map did not hold yet): \<open>added\<close>
  is the number of those, the other counters are 0, and the store after the run is the
  store before with nodes appended, so no bookmark was removed or changed.
\<close>

theorem first_run_adds_every_processed_item:
  assumes "storage_syncState w = None"
    and "incrementalSync rt opts w = (Inr st, w')"
  shows "added st = length (walkItems (getAllRaindrops opts) (tree opts)) + length (unsortedItems opts)
       \<and> updated st = 0 \<and> deleted st = 0 \<and> unchanged st = 0
       \<and> take (length (nodes (chrome w))) (nodes (chrome w')) = nodes (chrome w)"
proof -
  let ?items = "walkItems (getAllRaindrops opts) (tree opts)"
  have prev: "previousBookmarksOf rt w = []"
    using assms(1) by (simp add: previousBookmarksOf_def loadSyncState_def)
  from assms(2) obtain a1 a2 a3 where
    walk: "processCollectionForIncremental (getAllRaindrops opts) [] (baseFolder opts) (tree opts)
             (emptyAcc w) = (Inr (), a1)"
    and unsorted: "(if includeUnsorted opts \<noteq> Some False
                    then syncUnsortedCollection (getAllRaindrops opts) [] (baseFolder opts) a1
                    else (Inr (), a1)) = (Inr (), a2)"
    and a3: "a3 = deleteStale (node_id (baseFolder opts)) [] a2"
    and st: "st = stats a3"
    and w': "w' = saveSyncState rt
            \<lparr>bookmarks = newBookmarks a3, collectionFolders = newCollectionFolders a3,
             lastSync = Date_now rt\<rparr>
            (w\<lparr>chrome := browser a3\<rparr>)"
    unfolding prev[symmetric] by (rule incrementalSync_success)
  have a32: "a3 = a2" using a3 by simp
  have g: "grewBy (length ?items) ((\<lambda>i. link (snd i)) ` set ?items) (emptyAcc w) a1"
    using first_walk[of "getAllRaindrops opts" "[]" "baseFolder opts" "tree opts" "emptyAcc w" a1] walk
    by blast
  have st1: "stats a1 = \<lparr>added = length ?items, updated = 0, deleted = 0, unchanged = 0\<rparr>"
    and gr1: "\<exists>ns. nodes (browser a1) = nodes (chrome w) @ ns"
    and keys1: "fst ` set (newBookmarks a1) = (\<lambda>i. link (snd i)) ` set ?items"
    and inv1: "\<forall>v\<in>snd ` set (newCollectionFolders a1). has_folder v (browser a1)"
    using g unfolding grewBy_def emptyAcc_def by simp_all
  have seen: "set (map (\<lambda>i. link (snd i)) ?items) = fst ` set (newBookmarks a1)"
    using keys1 by simp
  have "stats a2 = (stats a1)\<lparr>added := added (stats a1) + length (unsortedItems opts)\<rparr>
        \<and> (\<exists>ns. nodes (browser a2) = nodes (browser a1) @ ns)"
  proof (cases "includeUnsorted opts = Some False")
    case True
    then show ?thesis using unsorted by (simp add: unsortedItems_def)
  next
    case False
    then have "syncUnsortedCollection (getAllRaindrops opts) [] (baseFolder opts) a1 = (Inr (), a2)"
      using unsorted by simp
    from first_syncUnsortedCollection[OF this inv1 seen] show ?thesis
      using False by (simp add: unsortedItems_def)
  qed
  then have s2: "stats a2 = \<lparr>added = length ?items + length (unsortedItems opts), updated = 0,
                         deleted = 0, unchanged = 0\<rparr>"
    and g2: "\<exists>ns. nodes (browser a2) = nodes (chrome w) @ ns"
    using st1 gr1 by auto
  have c': "chrome w' = browser a2" by (simp add: w' a32 saveSyncState_def)
  show ?thesis using s2 g2 st a32 c' by auto
qed

theorem first_run_adds_every_processed_item_witness:
  "storage_syncState freshWorld = None
   \<and> fst (incrementalSync demoRuntime listedAndUnsortedSource freshWorld) =
       Inr \<lparr>added = 1, updated = 0, deleted = 0, unchanged = 0\<rparr>
   \<and> length (walkItems (getAllRaindrops listedAndUnsortedSource) (tree listedAndUnsortedSource)) = 1
   \<and> length (unsortedItems listedAndUnsortedSource) = 0
   \<and> take (length (nodes (chrome freshWorld)))
        (nodes (chrome (snd (incrementalSync demoRuntime listedAndUnsortedSource freshWorld)))) =
       nodes (chrome freshWorld)"
proof -
  let ?r = "incrementalSync demoRuntime listedAndUnsortedSource freshWorld"
  have none: "storage_syncState freshWorld = None"
    by code_simp
  have result: "fst ?r = Inr \<lparr>added = 1, updated = 0, deleted = 0, unchanged = 0\<rparr>"
    by code_simp
  then have run: "?r = (Inr \<lparr>added = 1, updated = 0, deleted = 0, unchanged = 0\<rparr>, snd ?r)"
    by (simp add: prod_eq_iff)
  have counts: "length (walkItems (getAllRaindrops listedAndUnsortedSource)
                    (tree listedAndUnsortedSource)) = 1"
    "length (unsortedItems listedAndUnsortedSource) = 0"
    by code_simp+
  show ?thesis
    using first_run_adds_every_processed_item[OF none run] none result counts by simp
qed

section \<open>A changed item: updated in place, moved to the folder of its collection\<close>

lemma search_append:
  "nodes c' = nodes c @ [n] \<Longrightarrow> node_url n \<noteq> Some u \<Longrightarrow>
   bookmarks_search u c' = bookmarks_search u c"
  by (simp add: bookmarks_search_def)

lemma wf_store_create:
  assumes "wf_store c" and "bookmarks_create pid t0 u0 c = Inr (n, c')"
  shows "wf_store c'"
proof -
  note g = bookmarks_create_grows[OF assms(2)]
  have ids: "set (map node_id (nodes c)) \<subseteq> decimal ` {..<nextId c}"
    using assms(1) by (auto simp: wf_store_def issuedIds_def)
  have "decimal (nextId c) \<notin> decimal ` {..<nextId c}"
  proof
    assume "decimal (nextId c) \<in> decimal ` {..<nextId c}"
    then obtain k where "k < nextId c" and "decimal (nextId c) = decimal k" by auto
    then show False using decimal_inj[of "nextId c" k] by simp
  qed
  then have fresh: "node_id n \<notin> set (map node_id (nodes c))"
    using ids g by auto
  have "distinct (map node_id (nodes c'))"
    using assms(1) fresh g by (simp add: wf_store_def)
  moreover have "set (map node_id (nodes c')) \<subseteq> set (issuedIds c')"
    using assms(1) g by (auto simp: wf_store_def issuedIds_def)
  ultimately show ?thesis by (simp add: wf_store_def)
qed

lemma ids_touchAll [simp]: "map node_id (nodes (touchAll ids t m f c)) = map node_id (nodes c)"
  by (simp add: touchAll_def comp_def)

lemma nextId_touchAll [simp]: "nextId (touchAll ids t m f c) = nextId c"
  by (simp add: touchAll_def)

lemma wf_store_touchAll [simp]: "wf_store (touchAll ids t m f c) = wf_store c"
  by (simp add: wf_store_def issuedIds_def)

lemma touched_url [simp]: "node_url (touched t m f n) = node_url n"
  by (simp add: touched_def)

lemma search_touchAll:
  "bookmarks_search u (touchAll ids t m f c) =
     map (\<lambda>n. if node_id n \<in> ids then touched t m f n else n) (bookmarks_search u c)"
proof -
  let ?f = "\<lambda>n. if node_id n \<in> ids then touched t m f n else n"
  have "(\<lambda>n. node_url n = Some u) \<circ> ?f = (\<lambda>n. node_url n = Some u)"
    by (rule ext) simp
  then have "filter (\<lambda>n. node_url n = Some u) (map ?f (nodes c)) =
        map ?f (filter (\<lambda>n. node_url n = Some u) (nodes c))"
    by (simp only: filter_map)
  then show ?thesis by (simp add: bookmarks_search_def touchAll_def)
qed

lemma search_touchAll_other:
  assumes "wf_store c" and "ids \<subseteq> node_id ` set (bookmarks_search l c)" and "l \<noteq> u"
  shows "bookmarks_search u (touchAll ids t m f c) = bookmarks_search u c"
proof -
  have "\<And>n. n \<in> set (bookmarks_search u c) \<Longrightarrow> node_id n \<notin> ids"
  proof
    fix n assume n: "n \<in> set (bookmarks_search u c)" and "node_id n \<in> ids"
    then obtain m where m: "m \<in> set (bookmarks_search l c)" and same: "node_id m = node_id n"
      using assms(2) by auto
    have in_c: "n \<in> set (nodes c)" "m \<in> set (nodes c)"
      and urls: "node_url n = Some u" "node_url m = Some l"
      using n m by (simp_all add: bookmarks_search_def)
    have "inj_on node_id (set (nodes c))"
      using assms(1) by (simp add: wf_store_def distinct_map)
    then have "m = n" using same in_c(2) in_c(1) by (rule inj_onD)
    then show False using urls assms(3) by simp
  qed
  then have "map (\<lambda>n. if node_id n \<in> ids then touched t m f n else n) (bookmarks_search u c)
             = bookmarks_search u c"
    by (intro map_idI) simp
  then show ?thesis by (simp only: search_touchAll)
qed

lemma settled_touchAll:
  "settled u t moved fid
     (touchAll (node_id ` {bm \<in> set (bookmarks_search u c). truthy (parentId bm)}) t moved fid c)"
proof -
  let ?ids = "node_id ` {bm \<in> set (bookmarks_search u c). truthy (parentId bm)}"
  let ?f = "\<lambda>n. if node_id n \<in> ?ids then touched t moved fid n else n"
  have "truthy (parentId (?f n)) \<longrightarrow>
          node_title (?f n) = t \<and> (moved \<longrightarrow> parentId (?f n) = Some fid)"
    if "n \<in> set (bookmarks_search u c)" for n
  proof (cases "node_id n \<in> ?ids")
    case True
    then show ?thesis by (simp add: touched_def)
  next
    case False
    then have "\<not> truthy (parentId n)" using that by blast
    then show ?thesis using False by simp
  qed
  then have "\<forall>x\<in>?f ` set (bookmarks_search u c).
      truthy (parentId x) \<longrightarrow> node_title x = t \<and> (moved \<longrightarrow> parentId x = Some fid)"
    by blast
  then show ?thesis
    unfolding settled_def search_touchAll list_all_iff set_map .
qed

lemma settled_same_search:
  "bookmarks_search u c' = bookmarks_search u c \<Longrightarrow> settled u t moved fid c \<Longrightarrow>
   settled u t moved fid c'"
  by (simp add: settled_def)

lemma kept_refl: "kept u cid a a"
  by (simp add: kept_def)

lemma kept_trans: "kept u cid a a1 \<Longrightarrow> kept u cid a1 a2 \<Longrightarrow> kept u cid a a2"
  by (simp add: kept_def)

lemma placed_kept:
  "placed u t moved cid listed a1 \<Longrightarrow> kept u cid a1 a2 \<Longrightarrow> placed u t moved cid listed a2"
  by (auto simp: placed_def kept_def intro: settled_same_search)

lemma placed_weaken:
  "placed u t moved cid listed a \<Longrightarrow> (listed' \<Longrightarrow> listed) \<Longrightarrow> placed u t moved cid listed' a"
  by (auto simp: placed_def)

lemma filter_append_single:
  "filter P (xs @ ys) = [z] \<Longrightarrow>
   (filter P xs = [z] \<and> filter P ys = []) \<or> (filter P xs = [] \<and> filter P ys = [z])"
  by (auto simp: append_eq_Cons_conv Cons_eq_append_conv)

lemma walked_empty: "wf_store (browser a) \<Longrightarrow> walked u t moved cid [] [] a a"
  by (simp add: walked_def kept_refl)

lemma walked_seq:
  assumes one: "walked u t moved cid is1 ns1 a a1"
    and two: "walked u t moved cid is2 ns2 a1 a2"
    and ids1: "\<forall>i\<in>set is1. fst i \<in> collectionIdOf ` set ns1"
    and ids2: "\<forall>i\<in>set is2. fst i \<in> collectionIdOf ` set ns2"
    and alike: "\<forall>i\<in>set (is1 @ is2). link (snd i) = u \<longrightarrow> fst i = cid"
  shows "walked u t moved cid (is1 @ is2) (ns1 @ ns2) a a2"
proof -
  let ?P = "\<lambda>n. collectionIdOf n = cid"
  have none1: "\<not> (\<exists>i\<in>set is1. link (snd i) = u)" if "filter ?P ns1 = []"
  proof
    assume "\<exists>i\<in>set is1. link (snd i) = u"
    then obtain i where i: "i \<in> set is1" "link (snd i) = u" by blast
    then have "fst i = cid" using alike by simp
    then have "cid \<in> collectionIdOf ` set ns1" using ids1 i by force
    then show False using that by (auto simp: filter_empty_conv)
  qed
  have none2: "\<not> (\<exists>i\<in>set is2. link (snd i) = u)" if "filter ?P ns2 = []"
  proof
    assume "\<exists>i\<in>set is2. link (snd i) = u"
    then obtain i where i: "i \<in> set is2" "link (snd i) = u" by blast
    then have "fst i = cid" using alike by simp
    then have "cid \<in> collectionIdOf ` set ns2" using ids2 i by force
    then show False using that by (auto simp: filter_empty_conv)
  qed
  have wf: "wf_store (browser a2)" using two by (simp add: walked_def)
  have keys: "fst ` set (newBookmarks a2) =
      fst ` set (newBookmarks a) \<union> (\<lambda>i. link (snd i)) ` set (is1 @ is2)"
    using one two by (auto simp: walked_def)
  have absent: "kept u cid a a2" if "filter ?P (ns1 @ ns2) = []"
  proof -
    have "kept u cid a a1" "kept u cid a1 a2"
      using that one two by (simp_all add: walked_def)
    then show ?thesis by (rule kept_trans)
  qed
  have present: "placed u t moved cid (\<exists>i\<in>set (is1 @ is2). link (snd i) = u) a2"
    if f: "filter ?P (ns1 @ ns2) = [node]" and titled: "truthy (titleOf node)" for node
  proof -
    from filter_append_single[OF f] show ?thesis
    proof
      assume c: "filter ?P ns1 = [node] \<and> filter ?P ns2 = []"
      then have "placed u t moved cid (\<exists>i\<in>set is1. link (snd i) = u) a1"
        using one titled by (simp add: walked_def)
      moreover have "kept u cid a1 a2" using two c by (simp add: walked_def)
      ultimately have "placed u t moved cid (\<exists>i\<in>set is1. link (snd i) = u) a2"
        by (rule placed_kept)
      then show ?thesis
        using none2 c by (auto elim: placed_weaken)
    next
      assume c: "filter ?P ns1 = [] \<and> filter ?P ns2 = [node]"
      then have "placed u t moved cid (\<exists>i\<in>set is2. link (snd i) = u) a2"
        using two titled by (simp add: walked_def)
      then show ?thesis
        using none1 c by (auto elim: placed_weaken)
    qed
  qed
  show ?thesis
    unfolding walked_def using wf keys absent present by blast
qed

lemma processRaindrop_cases:
  assumes "processRaindrop prev folder c0 r a = (Inr (), a')"
  obtains
    (created) n c where "map_of prev (link r) = None"
      "bookmarks_create (node_id folder) (rd_title r) (Some (link r)) (browser a) = Inr (n, c)"
      "a' = count_added
              (a\<lparr>newBookmarks := AList.update (link r) (bookmarkStateOf c0 r) (newBookmarks a),
                 browser := c\<rparr>)"
  | (updated) p c where "map_of prev (link r) = Some p"
      "\<not> (title p = rd_title r \<and> collectionId p = c0)"
      "updateFound (rd_title r) (collectionId p \<noteq> c0) (node_id folder)
         (bookmarks_search (link r) (browser a)) (browser a) = (Inr (), c)"
      "a' = count_updated
              (a\<lparr>newBookmarks := AList.update (link r) (bookmarkStateOf c0 r) (newBookmarks a),
                 browser := c\<rparr>)"
  | (unchanged) p where "map_of prev (link r) = Some p"
      "title p = rd_title r" "collectionId p = c0"
      "a' = count_unchanged
              (a\<lparr>newBookmarks := AList.update (link r) (bookmarkStateOf c0 r) (newBookmarks a)\<rparr>)"
  using assms
  by (auto simp: processRaindrop_def Let_def split: option.splits sum.splits prod.splits if_splits)

lemma item_step:
  assumes wf: "wf_store (browser a)"
    and run: "processRaindrop prev folder c0 r a = (Inr (), a')"
  shows "wf_store (browser a')"
    and "newCollectionFolders a' = newCollectionFolders a"
    and "fst ` set (newBookmarks a') = insert (link r) (fst ` set (newBookmarks a))"
    and "link r \<noteq> u \<Longrightarrow> bookmarks_search u (browser a') = bookmarks_search u (browser a)"
    and "link r = u \<Longrightarrow> map_of prev u = Some previous \<Longrightarrow>
         \<not> (title previous = rd_title r \<and> collectionId previous = c0) \<Longrightarrow>
         settled u (rd_title r) (collectionId previous \<noteq> c0) (node_id folder) (browser a')"
proof -
  from run show "wf_store (browser a')"
  proof (cases rule: processRaindrop_cases)
    case (created n c)
    then show ?thesis using wf_store_create[OF wf created(2)] by (simp add: count_added_def)
  next
    case (updated p c)
    then show ?thesis
      using wf updateFound_touchAll[OF updated(3)] by (simp add: count_updated_def)
  next
    case (unchanged p)
    then show ?thesis using wf by (simp add: count_unchanged_def)
  qed
  from run show "newCollectionFolders a' = newCollectionFolders a"
    by (cases rule: processRaindrop_cases)
      (simp_all add: count_added_def count_updated_def count_unchanged_def)
  from run show "fst ` set (newBookmarks a') = insert (link r) (fst ` set (newBookmarks a))"
    by (cases rule: processRaindrop_cases)
      (simp_all add: count_added_def count_updated_def count_unchanged_def keys_update)
  show "bookmarks_search u (browser a') = bookmarks_search u (browser a)" if other: "link r \<noteq> u"
    using run
  proof (cases rule: processRaindrop_cases)
    case (created n c)
    note g = bookmarks_create_grows[OF created(2)]
    have "node_url n \<noteq> Some u" using g other by (simp split: if_splits)
    then have "bookmarks_search u c = bookmarks_search u (browser a)"
      using g by (simp add: search_append)
    then show ?thesis by (simp add: created(3) count_added_def)
  next
    case (updated p c)
    have "bookmarks_search u c = bookmarks_search u (browser a)"
      unfolding updateFound_touchAll[OF updated(3)]
      by (rule search_touchAll_other[OF wf _ other]) auto
    then show ?thesis by (simp add: updated(4) count_updated_def)
  next
    case (unchanged p)
    then show ?thesis by (simp add: count_unchanged_def)
  qed
  show "settled u (rd_title r) (collectionId previous \<noteq> c0) (node_id folder) (browser a')"
    if here: "link r = u" and known: "map_of prev u = Some previous"
      and changed: "\<not> (title previous = rd_title r \<and> collectionId previous = c0)"
    using run
  proof (cases rule: processRaindrop_cases)
    case (created n c)
    then show ?thesis using here known by simp
  next
    case (updated p c)
    have p: "p = previous" using updated(1) here known by simp
    have "c = touchAll (node_id ` {bm \<in> set (bookmarks_search u (browser a)). truthy (parentId bm)})
               (rd_title r) (collectionId previous \<noteq> c0) (node_id folder) (browser a)"
      using updateFound_touchAll[OF updated(3)] by (simp add: p here)
    then have "settled u (rd_title r) (collectionId previous \<noteq> c0) (node_id folder) c"
      using settled_touchAll[of u "rd_title r" "collectionId previous \<noteq> c0" "node_id folder" "browser a"]
      by simp
    then show ?thesis by (simp add: updated(4) count_updated_def)
  next
    case (unchanged p)
    then show ?thesis using here known changed by simp
  qed
qed

lemma items_steps:
  assumes "wf_store (browser a)"
    and "processRaindrops prev folder c0 raindrops a = (Inr (), a')"
  shows "wf_store (browser a')
    \<and> newCollectionFolders a' = newCollectionFolders a
    \<and> fst ` set (newBookmarks a') = fst ` set (newBookmarks a) \<union> link ` set raindrops
    \<and> ((\<forall>r\<in>set raindrops. link r \<noteq> u) \<longrightarrow>
          bookmarks_search u (browser a') = bookmarks_search u (browser a))
    \<and> (map_of prev u = Some previous \<longrightarrow>
          \<not> (title previous = t \<and> collectionId previous = c0) \<longrightarrow>
          (\<forall>r\<in>set raindrops. link r = u \<longrightarrow> rd_title r = t) \<longrightarrow>
          (\<exists>r\<in>set raindrops. link r = u) \<longrightarrow>
          settled u t (collectionId previous \<noteq> c0) (node_id folder) (browser a'))"
  using assms
proof (induction raindrops arbitrary: a)
  case Nil
  then show ?case by simp
next
  case (Cons r raindrops)
  from Cons.prems(2) obtain a1 where
    one: "processRaindrop prev folder c0 r a = (Inr (), a1)"
    and rest: "processRaindrops prev folder c0 raindrops a1 = (Inr (), a')"
    by (auto split: prod.splits sum.splits)
  note s = item_step[OF Cons.prems(1) one]
  note ih = Cons.IH[OF s(1) rest]
  have wf: "wf_store (browser a')" using ih by simp
  have folders: "newCollectionFolders a' = newCollectionFolders a" using ih s(2) by simp
  have keys: "fst ` set (newBookmarks a') = fst ` set (newBookmarks a) \<union> link ` set (r # raindrops)"
    using ih s(3) by auto
  have frame: "bookmarks_search u (browser a') = bookmarks_search u (browser a)"
    if "\<forall>x\<in>set (r # raindrops). link x \<noteq> u"
    using that ih s(4)[of u] by simp
  have settle: "settled u t (collectionId previous \<noteq> c0) (node_id folder) (browser a')"
    if known: "map_of prev u = Some previous"
      and changed: "\<not> (title previous = t \<and> collectionId previous = c0)"
      and titles: "\<forall>x\<in>set (r # raindrops). link x = u \<longrightarrow> rd_title x = t"
      and listed: "\<exists>x\<in>set (r # raindrops). link x = u"
  proof (cases "\<exists>x\<in>set raindrops. link x = u")
    case True
    then show ?thesis using ih known changed titles by simp
  next
    case False
    then have here: "link r = u" using listed by auto
    then have title: "rd_title r = t" using titles by simp
    have "settled u t (collectionId previous \<noteq> c0) (node_id folder) (browser a1)"
      using s(5)[OF here known] changed title by simp
    moreover have "bookmarks_search u (browser a') = bookmarks_search u (browser a1)"
      using ih False by simp
    ultimately show ?thesis by (simp add: settled_def)
  qed
  show ?case using wf folders keys frame settle by blast
qed

lemma resolve_step:
  assumes wf: "wf_store (browser a)"
    and res: "resolveCollectionFolder parentFolder T a = (Inr folder, a')"
  shows "wf_store (browser a')"
    and "newBookmarks a' = newBookmarks a"
    and "bookmarks_search u (browser a') = bookmarks_search u (browser a)"
    and "k \<noteq> Num (collectionIdOf T) \<Longrightarrow>
         map_of (newCollectionFolders a') k = map_of (newCollectionFolders a) k"
    and "truthy (titleOf T) \<Longrightarrow>
         map_of (newCollectionFolders a') (Num (collectionIdOf T)) = Some (node_id folder)"
proof -
  from res show "wf_store (browser a')"
  proof (cases rule: resolveCollectionFolder_cases)
    case (created c)
    then show ?thesis using wf_store_create[OF wf created(2)] by simp
  qed (use wf in simp_all)
  from res show "newBookmarks a' = newBookmarks a"
    by (cases rule: resolveCollectionFolder_cases) simp_all
  from res show "bookmarks_search u (browser a') = bookmarks_search u (browser a)"
  proof (cases rule: resolveCollectionFolder_cases)
    case (created c)
    note g = bookmarks_create_grows[OF created(2)]
    have "node_url folder \<noteq> Some u" using g by (simp add: truthy_def)
    then show ?thesis using g by (simp add: created(3) search_append)
  qed simp_all
  from res show "map_of (newCollectionFolders a') k = map_of (newCollectionFolders a) k"
    if "k \<noteq> Num (collectionIdOf T)"
    using that by (cases rule: resolveCollectionFolder_cases) (simp_all add: update_conv')
  from res show "map_of (newCollectionFolders a') (Num (collectionIdOf T)) = Some (node_id folder)"
    if "truthy (titleOf T)"
    using that by (cases rule: resolveCollectionFolder_cases) (simp_all add: update_conv')
qed

lemma own_walked:
  assumes wf: "wf_store (browser a)"
    and res: "resolveCollectionFolder parentFolder T a = (Inr folder, a1)"
    and items: "processRaindrops prev folder (collectionIdOf T) raindrops a1 = (Inr (), a2)"
    and known: "map_of prev u = Some previous"
    and changed: "\<not> (title previous = t \<and> collectionId previous = cid)"
    and alike: "\<forall>r\<in>set raindrops. link r = u \<longrightarrow> collectionIdOf T = cid \<and> rd_title r = t"
  shows "walked u t (collectionId previous \<noteq> cid) cid (map (Pair (collectionIdOf T)) raindrops) [T] a a2"
proof -
  note r = resolve_step[OF wf res]
  note i = items_steps[OF r(1) items, of u previous t]
  have wf2: "wf_store (browser a2)" using i by simp
  have keys: "fst ` set (newBookmarks a2) =
      fst ` set (newBookmarks a) \<union> (\<lambda>i. link (snd i)) ` set (map (Pair (collectionIdOf T)) raindrops)"
    using i r(2) by (simp add: image_image)
  have absent: "kept u cid a a2" if "filter (\<lambda>n. collectionIdOf n = cid) [T] = []"
  proof -
    have other: "collectionIdOf T \<noteq> cid" using that by (simp split: if_splits)
    then have "\<forall>r\<in>set raindrops. link r \<noteq> u" using alike by blast
    then have "bookmarks_search u (browser a2) = bookmarks_search u (browser a)"
      using i r(3)[of u] by simp
    moreover have "map_of (newCollectionFolders a2) (Num cid) = map_of (newCollectionFolders a) (Num cid)"
      using i r(4)[of "Num cid"] other by simp
    ultimately show ?thesis by (simp add: kept_def)
  qed
  have present: "placed u t (collectionId previous \<noteq> cid) cid
      (\<exists>i\<in>set (map (Pair (collectionIdOf T)) raindrops). link (snd i) = u) a2"
    if f: "filter (\<lambda>n. collectionIdOf n = cid) [T] = [node]" and titled: "truthy (titleOf node)"
    for node
  proof -
    have same: "collectionIdOf T = cid" and node: "node = T"
      using f by (simp_all split: if_splits)
    have folder: "map_of (newCollectionFolders a2) (Num cid) = Some (node_id folder)"
      using i r(5) titled same node by simp
    have "settled u t (collectionId previous \<noteq> cid) (node_id folder) (browser a2)"
      if "\<exists>r\<in>set raindrops. link r = u"
      using i known changed alike that same by blast
    then show ?thesis
      unfolding placed_def using folder by auto
  qed
  show ?thesis unfolding walked_def using wf2 keys absent present by blast
qed

lemma walkItems_ids:
  "\<forall>i\<in>set (walkItems client T). fst i \<in> collectionIdOf ` set (treeNodes T)"
  "\<forall>i\<in>set (walkItemsOfAll client ts). fst i \<in> collectionIdOf ` set (treeNodesOfAll ts)"
  by (induction client T and client ts rule: walkItems_walkItemsOfAll.induct) auto

lemma walk_walked:
  "(processCollectionForIncremental client prev parentFolder T a = (Inr (), a') \<longrightarrow>
      wf_store (browser a) \<longrightarrow> map_of prev u = Some previous \<longrightarrow>
      \<not> (title previous = t \<and> collectionId previous = cid) \<longrightarrow>
      (\<forall>i\<in>set (walkItems client T). link (snd i) = u \<longrightarrow> fst i = cid \<and> rd_title (snd i) = t) \<longrightarrow>
      walked u t (collectionId previous \<noteq> cid) cid (walkItems client T) (treeNodes T) a a')
   \<and> (processChildren client prev parentFolder ts a = (Inr (), b') \<longrightarrow>
      wf_store (browser a) \<longrightarrow> map_of prev u = Some previous \<longrightarrow>
      \<not> (title previous = t \<and> collectionId previous = cid) \<longrightarrow>
      (\<forall>i\<in>set (walkItemsOfAll client ts). link (snd i) = u \<longrightarrow> fst i = cid \<and> rd_title (snd i) = t) \<longrightarrow>
      walked u t (collectionId previous \<noteq> cid) cid (walkItemsOfAll client ts) (treeNodesOfAll ts) a b')"
proof (rule walk_success_induct)
  fix client :: "int \<Rightarrow> Raindrop list option" and prev parentFolder d cs a folder a1 raindrops a2 a'
  let ?T = "TreeNode d cs"
  assume res: "resolveCollectionFolder parentFolder ?T a = (Inr folder, a1)"
    and fetch: "client (collectionIdOf ?T) = Some raindrops"
    and items: "processRaindrops prev folder (collectionIdOf ?T) raindrops a1 = (Inr (), a2)"
    and kids: "wf_store (browser a2) \<longrightarrow> map_of prev u = Some previous \<longrightarrow>
      \<not> (title previous = t \<and> collectionId previous = cid) \<longrightarrow>
      (\<forall>i\<in>set (walkItemsOfAll client cs). link (snd i) = u \<longrightarrow> fst i = cid \<and> rd_title (snd i) = t) \<longrightarrow>
      walked u t (collectionId previous \<noteq> cid) cid (walkItemsOfAll client cs) (treeNodesOfAll cs) a2 a'"
  show "wf_store (browser a) \<longrightarrow> map_of prev u = Some previous \<longrightarrow>
      \<not> (title previous = t \<and> collectionId previous = cid) \<longrightarrow>
      (\<forall>i\<in>set (walkItems client ?T). link (snd i) = u \<longrightarrow> fst i = cid \<and> rd_title (snd i) = t) \<longrightarrow>
      walked u t (collectionId previous \<noteq> cid) cid (walkItems client ?T) (treeNodes ?T) a a'"
  proof (intro impI)
    assume wf: "wf_store (browser a)" and known: "map_of prev u = Some previous"
      and changed: "\<not> (title previous = t \<and> collectionId previous = cid)"
      and alike: "\<forall>i\<in>set (walkItems client ?T). link (snd i) = u \<longrightarrow> fst i = cid \<and> rd_title (snd i) = t"
    have its: "walkItems client ?T = map (Pair (collectionIdOf ?T)) raindrops @ walkItemsOfAll client cs"
      using fetch by simp
    have alike_own: "\<forall>r\<in>set raindrops. link r = u \<longrightarrow> collectionIdOf ?T = cid \<and> rd_title r = t"
    proof (intro ballI impI)
      fix r assume r: "r \<in> set raindrops" "link r = u"
      then have "(collectionIdOf ?T, r) \<in> set (walkItems client ?T)"
        unfolding its by simp
      then have "link (snd (collectionIdOf ?T, r)) = u \<longrightarrow>
                 fst (collectionIdOf ?T, r) = cid \<and> rd_title (snd (collectionIdOf ?T, r)) = t"
        using alike by blast
      then show "collectionIdOf ?T = cid \<and> rd_title r = t" using r(2) by simp
    qed
    have alike_kids: "\<forall>i\<in>set (walkItemsOfAll client cs). link (snd i) = u \<longrightarrow> fst i = cid \<and> rd_title (snd i) = t"
      using alike unfolding its by auto
    have own: "walked u t (collectionId previous \<noteq> cid) cid
                 (map (Pair (collectionIdOf ?T)) raindrops) [?T] a a2"
      using wf res items known changed alike_own by (rule own_walked)
    then have wf2: "wf_store (browser a2)" by (simp add: walked_def)
    have rest: "walked u t (collectionId previous \<noteq> cid) cid
                 (walkItemsOfAll client cs) (treeNodesOfAll cs) a2 a'"
      using kids wf2 known changed alike_kids by blast
    have "walked u t (collectionId previous \<noteq> cid) cid
            (map (Pair (collectionIdOf ?T)) raindrops @ walkItemsOfAll client cs)
            ([?T] @ treeNodesOfAll cs) a a'"
      using own rest
    proof (rule walked_seq)
      show "\<forall>i\<in>set (map (Pair (collectionIdOf ?T)) raindrops). fst i \<in> collectionIdOf ` set [?T]"
        by simp
      show "\<forall>i\<in>set (walkItemsOfAll client cs). fst i \<in> collectionIdOf ` set (treeNodesOfAll cs)"
        by (rule walkItems_ids)
      show "\<forall>i\<in>set (map (Pair (collectionIdOf ?T)) raindrops @ walkItemsOfAll client cs).
              link (snd i) = u \<longrightarrow> fst i = cid"
        using alike unfolding its by blast
    qed
    then show "walked u t (collectionId previous \<noteq> cid) cid (walkItems client ?T) (treeNodes ?T) a a'"
      unfolding its by simp
  qed
next
  fix client :: "int \<Rightarrow> Raindrop list option" and prev :: "(string \<times> BookmarkState) list"
    and folder :: BookmarkTreeNode and a
  show "wf_store (browser a) \<longrightarrow> map_of prev u = Some previous \<longrightarrow>
      \<not> (title previous = t \<and> collectionId previous = cid) \<longrightarrow>
      (\<forall>i\<in>set (walkItemsOfAll client []). link (snd i) = u \<longrightarrow> fst i = cid \<and> rd_title (snd i) = t) \<longrightarrow>
      walked u t (collectionId previous \<noteq> cid) cid (walkItemsOfAll client []) (treeNodesOfAll []) a a"
    by (simp add: walked_empty)
next
  fix client :: "int \<Rightarrow> Raindrop list option" and prev :: "(string \<times> BookmarkState) list"
    and folder :: BookmarkTreeNode and child cs a a1 a'
  assume one: "wf_store (browser a) \<longrightarrow> map_of prev u = Some previous \<longrightarrow>
      \<not> (title previous = t \<and> collectionId previous = cid) \<longrightarrow>
      (\<forall>i\<in>set (walkItems client child). link (snd i) = u \<longrightarrow> fst i = cid \<and> rd_title (snd i) = t) \<longrightarrow>
      walked u t (collectionId previous \<noteq> cid) cid (walkItems client child) (treeNodes child) a a1"
    and rest: "wf_store (browser a1) \<longrightarrow> map_of prev u = Some previous \<longrightarrow>
      \<not> (title previous = t \<and> collectionId previous = cid) \<longrightarrow>
      (\<forall>i\<in>set (walkItemsOfAll client cs). link (snd i) = u \<longrightarrow> fst i = cid \<and> rd_title (snd i) = t) \<longrightarrow>
      walked u t (collectionId previous \<noteq> cid) cid (walkItemsOfAll client cs) (treeNodesOfAll cs) a1 a'"
  show "wf_store (browser a) \<longrightarrow> map_of prev u = Some previous \<longrightarrow>
      \<not> (title previous = t \<and> collectionId previous = cid) \<longrightarrow>
      (\<forall>i\<in>set (walkItemsOfAll client (child # cs)). link (snd i) = u \<longrightarrow> fst i = cid \<and> rd_title (snd i) = t) \<longrightarrow>
      walked u t (collectionId previous \<noteq> cid) cid (walkItemsOfAll client (child # cs))
        (treeNodesOfAll (child # cs)) a a'"
  proof (intro impI)
    assume wf: "wf_store (browser a)" and known: "map_of prev u = Some previous"
      and changed: "\<not> (title previous = t \<and> collectionId previous = cid)"
      and alike: "\<forall>i\<in>set (walkItemsOfAll client (child # cs)).
                    link (snd i) = u \<longrightarrow> fst i = cid \<and> rd_title (snd i) = t"
    have alike1: "\<forall>i\<in>set (walkItems client child). link (snd i) = u \<longrightarrow> fst i = cid \<and> rd_title (snd i) = t"
      and alike2: "\<forall>i\<in>set (walkItemsOfAll client cs). link (snd i) = u \<longrightarrow> fst i = cid \<and> rd_title (snd i) = t"
      using alike by auto
    have first: "walked u t (collectionId previous \<noteq> cid) cid (walkItems client child) (treeNodes child) a a1"
      using one wf known changed alike1 by blast
    then have wf1: "wf_store (browser a1)" by (simp add: walked_def)
    have second: "walked u t (collectionId previous \<noteq> cid) cid (walkItemsOfAll client cs)
                    (treeNodesOfAll cs) a1 a'"
      using rest wf1 known changed alike2 by blast
    have "walked u t (collectionId previous \<noteq> cid) cid
            (walkItems client child @ walkItemsOfAll client cs)
            (treeNodes child @ treeNodesOfAll cs) a a'"
      using first second
    proof (rule walked_seq)
      show "\<forall>i\<in>set (walkItems client child). fst i \<in> collectionIdOf ` set (treeNodes child)"
        by (rule walkItems_ids)
      show "\<forall>i\<in>set (walkItemsOfAll client cs). fst i \<in> collectionIdOf ` set (treeNodesOfAll cs)"
        by (rule walkItems_ids)
      show "\<forall>i\<in>set (walkItems client child @ walkItemsOfAll client cs). link (snd i) = u \<longrightarrow> fst i = cid"
        using alike by simp
    qed
    then show "walked u t (collectionId previous \<noteq> cid) cid (walkItemsOfAll client (child # cs))
        (treeNodesOfAll (child # cs)) a a'"
      by simp
  qed
qed

lemma retitleFound_any:
  "retitleFound t results c = (res, c') \<Longrightarrow>
   \<exists>ids. ids \<subseteq> node_id ` set results \<and> c' = touchAll ids t False fid c"
proof (induction results arbitrary: c)
  case Nil
  then have "c' = touchAll {} t False fid c" by simp
  then show ?case by blast
next
  case (Cons bm results)
  show ?case
  proof (cases "bookmarks_update (node_id bm) t c")
    case (Inl e)
    then have "c' = touchAll {} t False fid c" using Cons.prems by simp
    then show ?thesis by blast
  next
    case (Inr c1)
    then have "retitleFound t results c1 = (res, c')" using Cons.prems by simp
    then obtain ids where ids: "ids \<subseteq> node_id ` set results" "c' = touchAll ids t False fid c1"
      using Cons.IH by blast
    have "c' = touchAll ({node_id bm} \<union> ids) t False fid c"
      using ids(2) bookmarks_update_touch[OF Inr, of fid] by (simp add: touchAll_touchAll)
    moreover have "{node_id bm} \<union> ids \<subseteq> node_id ` set (bm # results)"
      using ids(1) by auto
    ultimately show ?thesis by blast
  qed
qed

lemma unsorted_item_frame:
  assumes wf: "wf_store (browser a)"
    and seen: "u \<in> fst ` set (newBookmarks a)"
    and run: "processUnsortedRaindrop prev folder rd a = (res, a')"
  shows "wf_store (browser a') \<and> u \<in> fst ` set (newBookmarks a')
       \<and> bookmarks_search u (browser a') = bookmarks_search u (browser a)
       \<and> newCollectionFolders a' = newCollectionFolders a"
proof (cases "map_of (newBookmarks a) (link rd) = None")
  case False
  then have "a' = a" using run by (simp add: processUnsortedRaindrop_def)
  then show ?thesis using wf seen by simp
next
  case True
  then have other: "link rd \<noteq> u" using seen by (auto simp: map_of_None_keys)
  let ?a1 = "a\<lparr>newBookmarks :=
                AList.update (link rd) (bookmarkStateOf UNSORTED_ID rd) (newBookmarks a)\<rparr>"
  have seen1: "u \<in> fst ` set (newBookmarks ?a1)" using seen by (simp add: keys_update)
  show ?thesis
  proof (cases "map_of prev (link rd)")
    case None
    show ?thesis
    proof (cases "bookmarks_create (node_id folder) (rd_title rd) (Some (link rd)) (browser a)")
      case (Inl e)
      then have "a' = ?a1" using run True None by (simp add: processUnsortedRaindrop_def Let_def)
      then show ?thesis using wf seen1 by simp
    next
      case (Inr nc)
      obtain n c where nc: "nc = (n, c)" by (cases nc)
      have a': "a' = count_added (?a1\<lparr>browser := c\<rparr>)"
        using run True None Inr nc by (simp add: processUnsortedRaindrop_def Let_def)
      note g = bookmarks_create_grows[OF Inr[unfolded nc]]
      have "node_url n \<noteq> Some u" using g other by (simp split: if_splits)
      then have "bookmarks_search u c = bookmarks_search u (browser a)"
        using g by (simp add: search_append)
      moreover have "wf_store c" using wf Inr[unfolded nc] by (rule wf_store_create)
      ultimately show ?thesis using seen1 by (simp add: a' count_added_def)
    qed
  next
    case (Some p)
    show ?thesis
    proof (cases "title p \<noteq> rd_title rd")
      case False
      then have "a' = count_unchanged ?a1"
        using run True Some by (simp add: processUnsortedRaindrop_def Let_def)
      then show ?thesis using wf seen1 by (simp add: count_unchanged_def)
    next
      case differs: True
      obtain r c where found:
        "retitleFound (rd_title rd) (bookmarks_search (link rd) (browser a)) (browser a) = (r, c)"
        by fastforce
      have "processUnsortedRaindrop prev folder rd a =
              (case r of Inl e \<Rightarrow> (Inl e, ?a1\<lparr>browser := c\<rparr>)
               | Inr x \<Rightarrow> (Inr (), count_updated (?a1\<lparr>browser := c\<rparr>)))"
        using True Some differs found
        by (simp add: processUnsortedRaindrop_def Let_def split: sum.splits)
      then have "a' = ?a1\<lparr>browser := c\<rparr> \<or> a' = count_updated (?a1\<lparr>browser := c\<rparr>)"
        using run by (cases r) simp_all
      then have b: "browser a' = c" and rest: "newBookmarks a' = newBookmarks ?a1"
        "newCollectionFolders a' = newCollectionFolders a"
        by (auto simp: count_updated_def)
      obtain ids where ids: "ids \<subseteq> node_id ` set (bookmarks_search (link rd) (browser a))"
        and c: "c = touchAll ids (rd_title rd) False [] (browser a)"
        using retitleFound_any[OF found] by blast
      have "bookmarks_search u c = bookmarks_search u (browser a)"
        unfolding c using wf ids other by (rule search_touchAll_other)
      moreover have "wf_store c" using wf by (simp add: c)
      ultimately show ?thesis using seen1 b rest by simp
    qed
  qed
qed

lemma unsorted_items_frame:
  assumes "wf_store (browser a)" and "u \<in> fst ` set (newBookmarks a)"
    and "processUnsortedRaindrops prev folder raindrops a = (res, a')"
  shows "wf_store (browser a') \<and> u \<in> fst ` set (newBookmarks a')
       \<and> bookmarks_search u (browser a') = bookmarks_search u (browser a)
       \<and> newCollectionFolders a' = newCollectionFolders a"
  using assms
proof (induction raindrops arbitrary: a)
  case Nil
  then show ?case by simp
next
  case (Cons rd raindrops)
  obtain r1 a1 where one: "processUnsortedRaindrop prev folder rd a = (r1, a1)" by fastforce
  note s = unsorted_item_frame[OF Cons.prems(1,2) one]
  show ?case
  proof (cases r1)
    case (Inl e)
    then have "a' = a1" using Cons.prems(3) one by simp
    then show ?thesis using s by simp
  next
    case (Inr x)
    then have "processUnsortedRaindrops prev folder raindrops a1 = (res, a')"
      using Cons.prems(3) one by simp
    then have "wf_store (browser a') \<and> u \<in> fst ` set (newBookmarks a')
       \<and> bookmarks_search u (browser a') = bookmarks_search u (browser a1)
       \<and> newCollectionFolders a' = newCollectionFolders a1"
      using Cons.IH s by blast
    then show ?thesis using s by simp
  qed
qed

lemma unsorted_frame:
  assumes wf: "wf_store (browser a)" and seen: "u \<in> fst ` set (newBookmarks a)"
    and run: "syncUnsortedCollection client prev base a = (Inr (), a')"
    and other: "cid \<noteq> UNSORTED_ID"
  shows "wf_store (browser a') \<and> u \<in> fst ` set (newBookmarks a')
       \<and> bookmarks_search u (browser a') = bookmarks_search u (browser a)
       \<and> map_of (newCollectionFolders a') (Num cid) = map_of (newCollectionFolders a) (Num cid)"
proof -
  from run obtain folder a1 where
    res: "resolveUnsortedFolder base a = (Inr folder, a1)"
    by (auto simp: syncUnsortedCollection_def split: prod.splits sum.splits)
  have r: "wf_store (browser a1) \<and> newBookmarks a1 = newBookmarks a
        \<and> bookmarks_search u (browser a1) = bookmarks_search u (browser a)
        \<and> newCollectionFolders a1 = newCollectionFolders a"
    using res
  proof (cases rule: resolveUnsortedFolder_cases)
    case (created c)
    note g = bookmarks_create_grows[OF created(1)]
    have "node_url folder \<noteq> Some u" using g by (simp add: truthy_def)
    then have "bookmarks_search u c = bookmarks_search u (browser a)"
      using g by (simp add: search_append)
    moreover have "wf_store c" using wf created(1) by (rule wf_store_create)
    ultimately show ?thesis by (simp add: created(2))
  qed (use wf in simp_all)
  let ?a2 = "a1\<lparr>newCollectionFolders :=
               AList.update (Num UNSORTED_ID) (node_id folder) (newCollectionFolders a1)\<rparr>"
  have a': "a' = (case client UNSORTED_ID of None \<Rightarrow> ?a2
                  | Some raindrops \<Rightarrow> snd (processUnsortedRaindrops prev folder raindrops ?a2))"
    using run res by (simp add: syncUnsortedCollection_def Let_def split: option.splits)
  have two: "wf_store (browser ?a2) \<and> u \<in> fst ` set (newBookmarks ?a2)
        \<and> bookmarks_search u (browser ?a2) = bookmarks_search u (browser a)
        \<and> map_of (newCollectionFolders ?a2) (Num cid) = map_of (newCollectionFolders a) (Num cid)"
    using r seen other by (simp add: update_conv')
  show ?thesis
  proof (cases "client UNSORTED_ID")
    case None
    then show ?thesis using a' two by simp
  next
    case (Some raindrops)
    obtain r3 a3 where loop: "processUnsortedRaindrops prev folder raindrops ?a2 = (r3, a3)"
      by fastforce
    have "wf_store (browser a3) \<and> u \<in> fst ` set (newBookmarks a3)
       \<and> bookmarks_search u (browser a3) = bookmarks_search u (browser ?a2)
       \<and> newCollectionFolders a3 = newCollectionFolders ?a2"
      using two loop by (intro unsorted_items_frame) simp_all
    moreover have "a' = a3" using a' Some loop by simp
    ultimately show ?thesis using two by simp
  qed
qed

lemma ids_of_other_url:
  assumes wf: "wf_store c" and n: "n \<in> set (bookmarks_search u c)" and other: "l \<noteq> u"
  shows "node_id n \<notin> node_id ` set (bookmarks_search l c)"
proof
  assume "node_id n \<in> node_id ` set (bookmarks_search l c)"
  then obtain m where m: "m \<in> set (bookmarks_search l c)" and same: "node_id m = node_id n"
    by auto
  have in_c: "n \<in> set (nodes c)" "m \<in> set (nodes c)"
    and urls: "node_url n = Some u" "node_url m = Some l"
    using n m by (simp_all add: bookmarks_search_def)
  have "inj_on node_id (set (nodes c))"
    using wf by (simp add: wf_store_def distinct_map)
  then have "m = n" using same in_c(2) in_c(1) by (rule inj_onD)
  then show False using urls other by simp
qed

lemma wf_store_filter:
  assumes "wf_store c" and "nodes c' = filter P (nodes c)" and "nextId c' = nextId c"
  shows "wf_store c'"
  using assms by (auto simp: wf_store_def issuedIds_def distinct_map_filter)

lemma search_filter_other:
  assumes wf: "wf_store c" and R: "R \<subseteq> node_id ` set (bookmarks_search l c)" and other: "l \<noteq> u"
    and c': "nodes c' = filter (\<lambda>n. node_id n \<notin> R) (nodes c)"
  shows "bookmarks_search u c' = bookmarks_search u c"
proof -
  have "filter (\<lambda>n. node_id n \<notin> R) (bookmarks_search u c) = bookmarks_search u c"
    using ids_of_other_url[OF wf _ other] R by (intro filter_True) blast
  moreover have "bookmarks_search u c' = filter (\<lambda>n. node_id n \<notin> R) (bookmarks_search u c)"
    by (simp add: bookmarks_search_def c' conj_commute)
  ultimately show ?thesis by simp
qed

lemma bookmarks_remove_nodes:
  "bookmarks_remove i c = Inr c' \<Longrightarrow>
   nodes c' = filter (\<lambda>n. node_id n \<noteq> i) (nodes c) \<and> nextId c' = nextId c"
  by (auto simp: bookmarks_remove_def split: if_splits)

lemma removeFound_any:
  "removeFound baseId results a = (res, a') \<Longrightarrow>
   \<exists>R. R \<subseteq> node_id ` set results
     \<and> nodes (browser a') = filter (\<lambda>n. node_id n \<notin> R) (nodes (browser a))
     \<and> nextId (browser a') = nextId (browser a)
     \<and> newBookmarks a' = newBookmarks a \<and> newCollectionFolders a' = newCollectionFolders a"
proof (induction results arbitrary: a)
  case Nil
  then have "a' = a" by simp
  then have "{} \<subseteq> node_id ` set ([] :: BookmarkTreeNode list)
     \<and> nodes (browser a') = filter (\<lambda>n. node_id n \<notin> {}) (nodes (browser a))
     \<and> nextId (browser a') = nextId (browser a)
     \<and> newBookmarks a' = newBookmarks a \<and> newCollectionFolders a' = newCollectionFolders a"
    by simp
  then show ?case by blast
next
  case (Cons bm results)
  let ?guard = "case parentId bm of None \<Rightarrow> False | Some p \<Rightarrow> p \<noteq> [] \<and> isInSyncFolder p baseId"
  have keep: ?case if rest: "removeFound baseId results a = (res, a')"
  proof -
    obtain R where "R \<subseteq> node_id ` set results"
      "nodes (browser a') = filter (\<lambda>n. node_id n \<notin> R) (nodes (browser a))"
      "nextId (browser a') = nextId (browser a)"
      "newBookmarks a' = newBookmarks a" "newCollectionFolders a' = newCollectionFolders a"
      using Cons.IH[OF rest] by blast
    then have "R \<subseteq> node_id ` set (bm # results)
      \<and> nodes (browser a') = filter (\<lambda>n. node_id n \<notin> R) (nodes (browser a))
      \<and> nextId (browser a') = nextId (browser a)
      \<and> newBookmarks a' = newBookmarks a \<and> newCollectionFolders a' = newCollectionFolders a"
      by auto
    then show ?thesis by blast
  qed
  show ?case
  proof (cases ?guard)
    case False
    then have "removeFound baseId results a = (res, a')" using Cons.prems by simp
    then show ?thesis by (rule keep)
  next
    case True
    show ?thesis
    proof (cases "bookmarks_remove (node_id bm) (browser a)")
      case (Inl e)
      then have "a' = a" using Cons.prems True by simp
      then have "{} \<subseteq> node_id ` set (bm # results)
        \<and> nodes (browser a') = filter (\<lambda>n. node_id n \<notin> {}) (nodes (browser a))
        \<and> nextId (browser a') = nextId (browser a)
        \<and> newBookmarks a' = newBookmarks a \<and> newCollectionFolders a' = newCollectionFolders a"
        by simp
      then show ?thesis by blast
    next
      case (Inr c)
      let ?a1 = "count_deleted (a\<lparr>browser := c\<rparr>)"
      have "removeFound baseId results ?a1 = (res, a')" using Cons.prems True Inr by simp
      then obtain R where R: "R \<subseteq> node_id ` set results"
        "nodes (browser a') = filter (\<lambda>n. node_id n \<notin> R) (nodes (browser ?a1))"
        "nextId (browser a') = nextId (browser ?a1)"
        "newBookmarks a' = newBookmarks ?a1" "newCollectionFolders a' = newCollectionFolders ?a1"
        using Cons.IH by blast
      note g = bookmarks_remove_nodes[OF Inr]
      have "nodes (browser a') = filter (\<lambda>n. node_id n \<notin> insert (node_id bm) R) (nodes (browser a))"
        using R(2) g by (simp add: count_deleted_def conj_commute)
      moreover have "insert (node_id bm) R \<subseteq> node_id ` set (bm # results)"
        using R(1) by auto
      ultimately have "insert (node_id bm) R \<subseteq> node_id ` set (bm # results)
        \<and> nodes (browser a') = filter (\<lambda>n. node_id n \<notin> insert (node_id bm) R) (nodes (browser a))
        \<and> nextId (browser a') = nextId (browser a)
        \<and> newBookmarks a' = newBookmarks a \<and> newCollectionFolders a' = newCollectionFolders a"
        using R g by (simp add: count_deleted_def)
      then show ?thesis by blast
    qed
  qed
qed

lemma deleteStale_frame:
  assumes "wf_store (browser a)" and "u \<in> fst ` set (newBookmarks a)"
  shows "wf_store (browser (deleteStale baseId prev a))
       \<and> bookmarks_search u (browser (deleteStale baseId prev a)) = bookmarks_search u (browser a)
       \<and> newBookmarks (deleteStale baseId prev a) = newBookmarks a
       \<and> newCollectionFolders (deleteStale baseId prev a) = newCollectionFolders a"
  using assms
proof (induction prev arbitrary: a)
  case Nil
  then show ?case by simp
next
  case (Cons entry prev)
  show ?case
  proof (cases "map_of (newBookmarks a) (fst entry) = None")
    case False
    then have "deleteStale baseId (entry # prev) a = deleteStale baseId prev a"
      by (simp only: deleteStale.simps if_False)
    then show ?thesis using Cons.IH[OF Cons.prems] by simp
  next
    case True
    then have other: "fst entry \<noteq> u" using Cons.prems(2) by (auto simp: map_of_None_keys)
    obtain r a1 where rm:
      "removeFound baseId (bookmarks_search (fst entry) (browser a)) a = (r, a1)"
      by fastforce
    obtain R where R: "R \<subseteq> node_id ` set (bookmarks_search (fst entry) (browser a))"
      "nodes (browser a1) = filter (\<lambda>n. node_id n \<notin> R) (nodes (browser a))"
      "nextId (browser a1) = nextId (browser a)"
      "newBookmarks a1 = newBookmarks a" "newCollectionFolders a1 = newCollectionFolders a"
      using removeFound_any[OF rm] by blast
    have wf1: "wf_store (browser a1)"
      using Cons.prems(1) R(2,3) by (rule wf_store_filter)
    have s1: "bookmarks_search u (browser a1) = bookmarks_search u (browser a)"
      using Cons.prems(1) R(1) other R(2) by (rule search_filter_other)
    have seen1: "u \<in> fst ` set (newBookmarks a1)" using Cons.prems(2) R(4) by simp
    have "deleteStale baseId (entry # prev) a = deleteStale baseId prev a1"
      using True rm by simp
    then show ?thesis using Cons.IH[OF wf1 seen1] s1 R(4,5) by simp
  qed
qed

text \<open>
  C5, amended. Let a run of \<open>incrementalSync\<close> return on a store with ids of its own,
  and let the walk of the tree list the item \<open>rd\<close> under the collection \<open>cid\<close>, which is
  not the unsorted bucket and is the collection of exactly one node of the tree, a titled
  one; let the previous state know the URL with another title or another collection,
  and let every item the walk lists with this URL be listed under \<open>cid\<close> with the same
  title. Then every step that processes the item and returns takes the update branch:
  it retitles every bookmark found for the URL that has a parent, moves each of them to
  the folder of the step when the collection changed, and increments \<open>updated\<close> by one.
  After the run the new state maps \<open>cid\<close> to a folder, every bookmark with the URL that
  has a parent carries the item's title and, when the collection changed, has that
  folder as its parent.
\<close>

theorem recollected_item_is_updated_and_moved:
  assumes run: "incrementalSync rt opts w = (Inr st, w')"
    and wf: "wf_store (chrome w)"
    and known: "map_of (previousBookmarksOf rt w) (link rd) = Some previous"
    and changed: "\<not> (title previous = rd_title rd \<and> collectionId previous = cid)"
    and item: "(cid, rd) \<in> set (walkItems (getAllRaindrops opts) (tree opts))"
    and alike: "\<forall>i\<in>set (walkItems (getAllRaindrops opts) (tree opts)).
                  link (snd i) = link rd \<longrightarrow> fst i = cid \<and> rd_title (snd i) = rd_title rd"
    and single: "filter (\<lambda>n. collectionIdOf n = cid) (treeNodes (tree opts)) = [node]"
    and titled: "truthy (titleOf node)"
    and other: "cid \<noteq> UNSORTED_ID"
  shows "(\<forall>folder (a :: sync_acc) a'.
            processRaindrop (previousBookmarksOf rt w) folder cid rd a = (Inr (), a') \<longrightarrow>
              browser a' =
                touchAll (node_id ` {bm \<in> set (bookmarks_search (link rd) (browser a)).
                                      truthy (parentId bm)})
                  (rd_title rd) (collectionId previous \<noteq> cid) (node_id folder) (browser a)
              \<and> stats a' = (stats a)\<lparr>updated := Suc (updated (stats a))\<rparr>)
       \<and> (\<exists>new fid. syncState w' = Some new
            \<and> map_of (collectionFolders new) (Num cid) = Some fid
            \<and> (\<forall>n\<in>set (bookmarks_search (link rd) (chrome w')).
                  truthy (parentId n) \<longrightarrow>
                    node_title n = rd_title rd
                    \<and> (collectionId previous \<noteq> cid \<longrightarrow> parentId n = Some fid)))"
proof (rule conjI)
  show "\<forall>folder (a :: sync_acc) a'.
            processRaindrop (previousBookmarksOf rt w) folder cid rd a = (Inr (), a') \<longrightarrow>
              browser a' =
                touchAll (node_id ` {bm \<in> set (bookmarks_search (link rd) (browser a)).
                                      truthy (parentId bm)})
                  (rd_title rd) (collectionId previous \<noteq> cid) (node_id folder) (browser a)
              \<and> stats a' = (stats a)\<lparr>updated := Suc (updated (stats a))\<rparr>"
  proof (intro allI impI)
    fix folder and a :: sync_acc and a'
    assume "processRaindrop (previousBookmarksOf rt w) folder cid rd a = (Inr (), a')"
    then show "browser a' =
                touchAll (node_id ` {bm \<in> set (bookmarks_search (link rd) (browser a)).
                                      truthy (parentId bm)})
                  (rd_title rd) (collectionId previous \<noteq> cid) (node_id folder) (browser a)
              \<and> stats a' = (stats a)\<lparr>updated := Suc (updated (stats a))\<rparr>"
    proof (cases rule: processRaindrop_cases)
      case (created n c)
      then show ?thesis using known by simp
    next
      case (updated p c)
      then have "p = previous" using known by simp
      then show ?thesis
        using updated(4) updateFound_touchAll[OF updated(3)] by (simp add: count_updated_def)
    next
      case (unchanged p)
      then show ?thesis using known changed by simp
    qed
  qed
next
  let ?u = "link rd" and ?t = "rd_title rd" and ?moved = "collectionId previous \<noteq> cid"
  let ?prev = "previousBookmarksOf rt w"
  let ?items = "walkItems (getAllRaindrops opts) (tree opts)"
  from run obtain a1 a2 a3 where
    walk: "processCollectionForIncremental (getAllRaindrops opts) ?prev (baseFolder opts) (tree opts)
             (emptyAcc w) = (Inr (), a1)"
    and unsorted: "(if includeUnsorted opts \<noteq> Some False
                    then syncUnsortedCollection (getAllRaindrops opts) ?prev (baseFolder opts) a1
                    else (Inr (), a1)) = (Inr (), a2)"
    and a3: "a3 = deleteStale (node_id (baseFolder opts)) ?prev a2"
    and w': "w' = saveSyncState rt
            \<lparr>bookmarks = newBookmarks a3, collectionFolders = newCollectionFolders a3,
             lastSync = Date_now rt\<rparr>
            (w\<lparr>chrome := browser a3\<rparr>)"
    by (rule incrementalSync_success)
  have wf0: "wf_store (browser (emptyAcc w))" using wf by (simp add: emptyAcc_def)
  have "walked ?u ?t ?moved cid ?items (treeNodes (tree opts)) (emptyAcc w) a1"
    using walk_walked[of "getAllRaindrops opts" ?prev "baseFolder opts" "tree opts" "emptyAcc w" a1
        ?u previous ?t cid] walk wf0 known changed alike
    by blast
  then have wf1: "wf_store (browser a1)"
    and keys1: "fst ` set (newBookmarks a1) =
                  fst ` set (newBookmarks (emptyAcc w)) \<union> (\<lambda>i. link (snd i)) ` set ?items"
    and "placed ?u ?t ?moved cid (\<exists>i\<in>set ?items. link (snd i) = ?u) a1"
    using single titled by (simp_all add: walked_def)
  moreover have listed: "\<exists>i\<in>set ?items. link (snd i) = ?u"
    using item by force
  ultimately obtain fid where
    fid1: "map_of (newCollectionFolders a1) (Num cid) = Some fid"
    and settled1: "settled ?u ?t ?moved fid (browser a1)"
    by (auto simp: placed_def)
  have "?u \<in> (\<lambda>i. link (snd i)) ` set ?items"
    using item by (rule rev_image_eqI) simp
  then have seen1: "?u \<in> fst ` set (newBookmarks a1)"
    unfolding keys1 by (rule UnI2)
  have two: "wf_store (browser a2) \<and> ?u \<in> fst ` set (newBookmarks a2)
       \<and> bookmarks_search ?u (browser a2) = bookmarks_search ?u (browser a1)
       \<and> map_of (newCollectionFolders a2) (Num cid) = map_of (newCollectionFolders a1) (Num cid)"
  proof (cases "includeUnsorted opts = Some False")
    case True
    then have "a2 = a1" using unsorted by simp
    then show ?thesis using wf1 seen1 by simp
  next
    case False
    then have "syncUnsortedCollection (getAllRaindrops opts) ?prev (baseFolder opts) a1 = (Inr (), a2)"
      using unsorted by simp
    with wf1 seen1 show ?thesis using other by (rule unsorted_frame)
  qed
  have three: "wf_store (browser a3)
       \<and> bookmarks_search ?u (browser a3) = bookmarks_search ?u (browser a2)
       \<and> newBookmarks a3 = newBookmarks a2
       \<and> newCollectionFolders a3 = newCollectionFolders a2"
  proof -
    have "wf_store (browser a2)" and "?u \<in> fst ` set (newBookmarks a2)"
      using two by blast+
    then show ?thesis unfolding a3 by (rule deleteStale_frame)
  qed
  have fid3: "map_of (newCollectionFolders a3) (Num cid) = Some fid"
    using fid1 two three by simp
  have "bookmarks_search ?u (browser a3) = bookmarks_search ?u (browser a1)"
    using two three by simp
  then have settled3: "settled ?u ?t ?moved fid (browser a3)"
    using settled1 by (rule settled_same_search)
  have c': "chrome w' = browser a3"
    and s': "syncState w' = Some \<lparr>bookmarks = newBookmarks a3,
               collectionFolders = newCollectionFolders a3, lastSync = Date_now rt\<rparr>"
    by (simp_all add: w' saveSyncState_def)
  have "\<forall>n\<in>set (bookmarks_search ?u (chrome w')).
          truthy (parentId n) \<longrightarrow> node_title n = ?t \<and> (?moved \<longrightarrow> parentId n = Some fid)"
    using settled3 unfolding c' settled_def list_all_iff .
  then show "\<exists>new fid. syncState w' = Some new
            \<and> map_of (collectionFolders new) (Num cid) = Some fid
            \<and> (\<forall>n\<in>set (bookmarks_search ?u (chrome w')).
                  truthy (parentId n) \<longrightarrow> node_title n = ?t \<and> (?moved \<longrightarrow> parentId n = Some fid))"
    using s' fid3 by auto
qed

theorem recollected_item_is_updated_and_moved_witness:
  "wf_store (chrome syncedWorld)
   \<and> map_of (previousBookmarksOf demoRuntime syncedWorld) ''http://a.com/'' = Some (siteState 1)
   \<and> walkItems (getAllRaindrops recollectedSource) (tree recollectedSource) =
       [(2, raindrop 10 ''http://a.com/'' ''Site'')]
   \<and> fst (incrementalSync demoRuntime recollectedSource syncedWorld) =
       Inr \<lparr>added = 0, updated = 1, deleted = 0, unchanged = 0\<rparr>
   \<and> bookmarks_search ''http://a.com/''
        (chrome (snd (incrementalSync demoRuntime recollectedSource syncedWorld))) =
       [bookmarkNode ''3'' ''5'' ''Site'' ''http://a.com/'']
   \<and> (\<exists>new. syncState (snd (incrementalSync demoRuntime recollectedSource syncedWorld)) = Some new
          \<and> map_of (collectionFolders new) (Num 2) = Some ''5'')"
proof -
  let ?r = "incrementalSync demoRuntime recollectedSource syncedWorld"
  let ?rd = "raindrop 10 ''http://a.com/'' ''Site''"
  let ?items = "walkItems (getAllRaindrops recollectedSource) (tree recollectedSource)"
  have wf: "wf_store (chrome syncedWorld)"
    by code_simp
  have result: "fst ?r = Inr \<lparr>added = 0, updated = 1, deleted = 0, unchanged = 0\<rparr>"
    by code_simp
  then have run: "?r = (Inr \<lparr>added = 0, updated = 1, deleted = 0, unchanged = 0\<rparr>, snd ?r)"
    by (simp add: prod_eq_iff)
  have known: "map_of (previousBookmarksOf demoRuntime syncedWorld) (link ?rd) = Some (siteState 1)"
    by code_simp
  have changed: "\<not> (title (siteState 1) = rd_title ?rd \<and> collectionId (siteState 1) = 2)"
    by code_simp
  have items: "?items = [(2, ?rd)]"
    by code_simp
  have item: "(2, ?rd) \<in> set ?items"
    unfolding items by simp
  have alike: "\<forall>i\<in>set ?items. link (snd i) = link ?rd \<longrightarrow> fst i = 2 \<and> rd_title (snd i) = rd_title ?rd"
    unfolding items by simp
  have single: "filter (\<lambda>n. collectionIdOf n = 2) (treeNodes (tree recollectedSource)) =
                  [collection 2 ''Home'' []]"
    by code_simp
  have titled: "truthy (titleOf (collection 2 ''Home'' []))"
    by code_simp
  have other: "(2 :: int) \<noteq> UNSORTED_ID"
    by code_simp
  have found: "bookmarks_search ''http://a.com/'' (chrome (snd ?r)) =
                 [bookmarkNode ''3'' ''5'' ''Site'' ''http://a.com/'']"
    by code_simp
  have params: "link ?rd = ''http://a.com/''" "(collectionId (siteState 1) \<noteq> 2) = True"
    "truthy (Some ''5'') = True"
    "parentId (bookmarkNode ''3'' ''5'' ''Site'' ''http://a.com/'') = Some ''5''"
    by code_simp+
  have "\<exists>new fid. syncState (snd ?r) = Some new
            \<and> map_of (collectionFolders new) (Num 2) = Some fid
            \<and> (\<forall>n\<in>set (bookmarks_search (link ?rd) (chrome (snd ?r))).
                  truthy (parentId n) \<longrightarrow>
                    node_title n = rd_title ?rd
                    \<and> (collectionId (siteState 1) \<noteq> 2 \<longrightarrow> parentId n = Some fid))"
    using recollected_item_is_updated_and_moved[OF run wf known changed item alike single titled other]
    by (rule conjunct2)
  then have "\<exists>new. syncState (snd ?r) = Some new \<and> map_of (collectionFolders new) (Num 2) = Some ''5''"
    unfolding params(1,2) found by (auto simp: params(3,4))
  then show ?thesis
    using wf known result items found unfolding params by simp
qed

section \<open>Runs on the concrete inputs\<close>

text \<open>
  C1. The deletion pass is not scoped to the managed folder: with the stale entry
  \<open>http://a.com/\<close> in the previous state, the run removes the bookmark \<open>3\<close>, which
  lives in the folder \<open>2\<close> beside the managed folder \<open>1\<close>, and counts it as deleted.
\<close>

theorem deletion_reaches_outside_managed_folder:
  "fst (incrementalSync demoRuntime emptySource staleWorld) =
     Inr \<lparr>added = 0, updated = 0, deleted = 1, unchanged = 0\<rparr>
   \<and> nodes (chrome staleWorld) =
     [rootNode, managedFolder, folderNode ''2'' (Some ''0'') ''Personal'',
      bookmarkNode ''3'' ''2'' ''Mine'' ''http://a.com/'']
   \<and> nodes (chrome (snd (incrementalSync demoRuntime emptySource staleWorld))) =
     [rootNode, managedFolder, folderNode ''2'' (Some ''0'') ''Personal'']"
  by code_simp

text \<open>
  C2. The folder mapping of the previous state is not consulted: the stored state maps
  collection 5 to the folder \<open>2\<close>, which exists, and yet the run creates the folder
  \<open>3\<close> for collection 5 and records that one.
\<close>

theorem previous_folder_mapping_not_reused:
  "map_option collectionFolders (loadSyncState demoRuntime mappedWorld) = Some [(Num 5, ''2'')]
   \<and> has_folder ''2'' (chrome mappedWorld)
   \<and> nodes (chrome (snd (incrementalSync demoRuntime readingSource mappedWorld))) =
     [rootNode, managedFolder, folderNode ''2'' (Some ''1'') ''Reading'',
      folderNode ''3'' (Some ''1'') ''Reading'']
   \<and> map_option collectionFolders
       (syncState (snd (incrementalSync demoRuntime readingSource mappedWorld))) =
     Some [(Num 5, ''3'')]"
  by code_simp

text \<open>
  C3. A second run over an unchanged source is not always idle: when one URL is listed
  in two collections, the first run adds two bookmarks and the second run, on the world
  the first one left, counts one update.
\<close>

theorem second_run_updates_twice_listed_url:
  "fst (incrementalSync demoRuntime twiceListedSource freshWorld) =
     Inr \<lparr>added = 2, updated = 0, deleted = 0, unchanged = 0\<rparr>
   \<and> fst (incrementalSync demoRuntime twiceListedSource
          (snd (incrementalSync demoRuntime twiceListedSource freshWorld))) =
     Inr \<lparr>added = 0, updated = 1, deleted = 0, unchanged = 1\<rparr>"
  by code_simp

text \<open>
  C6. The unsorted bucket does not follow the update logic of an ordinary collection: a
  raindrop that moved from collection 1 to the bucket, title unchanged, is counted as
  unchanged, and its bookmark \<open>3\<close> stays in the folder \<open>2\<close> instead of moving to the
  Unsorted folder \<open>5\<close>.
\<close>

theorem unsorted_move_counted_unchanged:
  "fst (incrementalSync demoRuntime movedToUnsortedSource syncedWorld) =
     Inr \<lparr>added = 0, updated = 0, deleted = 0, unchanged = 1\<rparr>
   \<and> nodes (chrome (snd (incrementalSync demoRuntime movedToUnsortedSource syncedWorld))) =
     [rootNode, managedFolder, folderNode ''2'' (Some ''1'') ''Work'',
      bookmarkNode ''3'' ''2'' ''Site'' ''http://a.com/'',
      folderNode ''4'' (Some ''1'') ''Work'', folderNode ''5'' (Some ''1'') UNSORTED_TITLE]
   \<and> map_option collectionFolders
       (syncState (snd (incrementalSync demoRuntime movedToUnsortedSource syncedWorld))) =
     Some [(Num 1, ''4''), (Num (- 1), ''5'')]"
  by code_simp

text \<open>
  Against C5 as stated: the raindrop moved from collection 1 to the bucket, and the walk
  meets it at the root, which has no collection. It is counted as updated and its
  bookmark \<open>3\<close> is moved to the managed folder \<open>1\<close>, while the folder mapped to the
  collection \<open>-1\<close> after the run is the Unsorted folder \<open>4\<close>.
\<close>

theorem moved_to_root_parent_is_not_mapped_folder:
  "fst (incrementalSync demoRuntime movedToRootSource syncedWorld) =
     Inr \<lparr>added = 0, updated = 1, deleted = 0, unchanged = 0\<rparr>
   \<and> bookmarks_search ''http://a.com/''
       (chrome (snd (incrementalSync demoRuntime movedToRootSource syncedWorld))) =
     [bookmarkNode ''3'' ''1'' ''Site'' ''http://a.com/'']
   \<and> map_option collectionFolders
       (syncState (snd (incrementalSync demoRuntime movedToRootSource syncedWorld))) =
     Some [(Num (- 1), ''4'')]"
  by code_simp

text \<open>
  Against C10 as stated: nothing was synced before, the source lists the URL in
  collection 1 and in the unsorted bucket, two fetched items, and the run adds one.
\<close>

theorem first_run_skips_unsorted_duplicate:
  "storage_syncState freshWorld = None
   \<and> getAllRaindrops listedAndUnsortedSource 1 = Some [raindrop 10 ''http://a.com/'' ''Site'']
   \<and> getAllRaindrops listedAndUnsortedSource (- 1) = Some [raindrop 11 ''http://a.com/'' ''Site'']
   \<and> fst (incrementalSync demoRuntime listedAndUnsortedSource freshWorld) =
     Inr \<lparr>added = 1, updated = 0, deleted = 0, unchanged = 0\<rparr>"
  by code_simp

end
